theory Spec2Isabelle
  imports Complex_Main
begin

section \<open>JavaScript values\<close>

text \<open>
  A JavaScript number is NaN, an infinity or a finite value; the finite doubles are
  read as rationals (the operations used below, comparison with zero, truncation and
  the test for an integer, agree on doubles and on rationals, and \<open>-0\<close> behaves as
  \<open>0\<close> in all of them).
\<close>

datatype jsnum = NaN | PosInf | NegInf | Finite rat

text \<open>
  The arguments \<open>length\<close> and \<open>index\<close> of \<open>Barrier\<close> range over these primitive
  values: \<open>undefined\<close> (a missing argument), \<open>null\<close>, the booleans, the numbers, the
  bigints, and the strings that are the decimal numeral of a natural number
  (\<open>'0'\<close>, \<open>'7'\<close>, \<open>'42'\<close>, written \<open>NumeralString n\<close>: the strings that can name an
  element of an array). Other strings, objects and symbols are not covered: as an
  index such a value names a property of the array or of \<open>Array.prototype\<close>
  (\<open>'length'\<close>, \<open>'push'\<close>), the call of which is outside this model.
\<close>

datatype prim =
    Undefined | Null | Boolean bool | Number jsnum | BigInt int | NumeralString nat

text \<open>
  The errors: a RangeError with the message the library gives it, and the TypeError
  that the engine throws (its message depends on the engine and is not modelled).
\<close>

datatype error = RangeError string | TypeError

text \<open>
  The values that promises are settled with: primitives, strings, arrays, error
  objects and the outcome records that \<open>Promise.allSettled\<close> builds. A promise
  object is not one of them: where a promise may be passed (the argument of a resolve
  function, the result of a callback) the type is \<open>resolution\<close>.
\<close>

datatype val =
    Prim prim
  | Str string
  | Arr "val list"
  | Err error
  | FulfilledRecord val
  | RejectedRecord val

datatype resolution = Plain val | Thenable nat

datatype completion = Return resolution | Throw val

subsection \<open>The coercions the guards of \<open>Barrier\<close> use\<close>

fun ToBoolean :: "prim \<Rightarrow> bool" where
  "ToBoolean Undefined = False"
| "ToBoolean Null = False"
| "ToBoolean (Boolean b) = b"
| "ToBoolean (Number NaN) = False"
| "ToBoolean (Number (Finite r)) = (r \<noteq> 0)"
| "ToBoolean (Number _) = True"
| "ToBoolean (BigInt i) = (i \<noteq> 0)"
| "ToBoolean (NumeralString n) = True"

text \<open>\<open>ToNumber\<close>; it throws a TypeError on a bigint (\<open>None\<close>).\<close>

fun ToNumber :: "prim \<Rightarrow> jsnum option" where
  "ToNumber Undefined = Some NaN"
| "ToNumber Null = Some (Finite 0)"
| "ToNumber (Boolean b) = Some (Finite (if b then 1 else 0))"
| "ToNumber (Number n) = Some n"
| "ToNumber (BigInt i) = None"
| "ToNumber (NumeralString n) = Some (Finite (of_nat n))"

text \<open>
  \<open>x !== 0\<close>: strict inequality with the number zero; a value of another type,
  \<open>0n\<close> and \<open>'0'\<close> included, is different from it.
\<close>

definition strict_ne_zero :: "prim \<Rightarrow> bool" where
  "strict_ne_zero x = (x \<noteq> Number (Finite 0))"

text \<open>
  \<open>x < 0\<close>: a bigint is compared with the number by value; every other value goes
  through ToNumber; a comparison with NaN is false.
\<close>

definition less_zero :: "prim \<Rightarrow> bool" where
  "less_zero x =
     (case x of
        BigInt i \<Rightarrow> i < 0
      | _ \<Rightarrow> (case ToNumber x of
                Some NegInf \<Rightarrow> True
              | Some (Finite r) \<Rightarrow> r < 0
              | _ \<Rightarrow> False))"

text \<open>The guard \<open>x !== 0 && !x || x < 0\<close> of the constructor and of \<open>resolve\<close>.\<close>

definition invalid_arg :: "prim \<Rightarrow> bool" where
  "invalid_arg x = ((strict_ne_zero x \<and> \<not> ToBoolean x) \<or> less_zero x)"

text \<open>
  \<open>ToLength\<close>, which \<open>Array.from\<close> applies to the \<open>length\<close> property of its
  array-like argument: ToNumber (which throws on a bigint), truncate, clamp to
  \<open>0 .. 2^53 - 1\<close>.
\<close>

definition ToLength :: "prim \<Rightarrow> int option" where
  "ToLength x =
     map_option
       (\<lambda>n. case n of NaN \<Rightarrow> 0 | NegInf \<Rightarrow> 0 | PosInf \<Rightarrow> 2 ^ 53 - 1
             | Finite r \<Rightarrow> (if r \<le> 0 then 0 else min \<lfloor>r\<rfloor> (2 ^ 53 - 1)))
       (ToNumber x)"

text \<open>
  \<open>xs[index]\<close> on an array: the property key is the string of \<open>index\<close>, which names
  an element exactly when it is the decimal numeral of a natural number below the
  length: for a number that is such an integer, for a bigint likewise, and for the
  numeral string itself. Every other key of these primitives (\<open>'true'\<close>, \<open>'1.5'\<close>,
  \<open>'-1'\<close>, \<open>'Infinity'\<close>, ...) names no property of an array and gives
  \<open>undefined\<close>.
\<close>

fun array_get :: "'a list \<Rightarrow> prim \<Rightarrow> 'a option" where
  "array_get xs (Number (Finite r)) =
     (if of_int \<lfloor>r\<rfloor> = r \<and> 0 \<le> r \<and> nat \<lfloor>r\<rfloor> < length xs
      then Some (xs ! nat \<lfloor>r\<rfloor>) else None)"
| "array_get xs (BigInt i) =
     (if 0 \<le> i \<and> nat i < length xs then Some (xs ! nat i) else None)"
| "array_get xs (NumeralString n) = (if n < length xs then Some (xs ! n) else None)"
| "array_get xs _ = None"

section \<open>The promise runtime\<close>

text \<open>
  The library is written against the native \<open>Promise\<close>. Its abstract operations
  (ECMA-262, Promise Objects) are modelled on an explicit state: a store of promises,
  a store of the \<open>alreadyResolved\<close> flags of resolving functions, a store of the
  records that the element functions of \<open>Promise.all\<close> and \<open>Promise.allSettled\<close> share,
  the instances of \<open>PromiseSynch\<close>, and the queue of promise jobs (microtasks).
\<close>

datatype pstate = Pending | Fulfilled val | Rejected val

text \<open>
  The function objects of the runtime and of the library. \<open>ResolveFn p f\<close> and
  \<open>RejectFn p f\<close> are the resolving functions of promise \<open>p\<close> sharing the flag \<open>f\<close>;
  \<open>ThenFinally y k\<close> and \<open>CatchFinally y k\<close> are the two closures that
  \<open>promise.finally(() => this.#promises.delete(index))\<close> builds for instance \<open>y\<close> and
  ticket \<open>k\<close>. A user continuation either records its argument under a tag
  (\<open>Observer\<close>) or is a function of its argument (\<open>UserFn\<close>).
\<close>

datatype fn =
    ResolveFn nat nat
  | RejectFn nat nat
  | AllResolveElement nat nat
  | SettledResolveElement nat nat
  | SettledRejectElement nat nat
  | ThenFinally nat nat
  | CatchFinally nat nat
  | ValueThunk val
  | Thrower val
  | Observer nat
  | UserFn "val \<Rightarrow> completion"

text \<open>
  \<open>then\<close> registers a fulfil reaction and a reject reaction that share one capability
  (the derived promise and the flag of its resolving functions); they are kept as one
  entry.
\<close>

record reaction =
  capability :: "nat \<times> nat"
  on_fulfilled :: "fn option"
  on_rejected :: "fn option"

record promise =
  pstate :: pstate
  reactions :: "reaction list"

datatype rtype = Fulfill | Reject

datatype job =
    ReactionJob "nat \<times> nat" rtype "fn option" val
  | ResolveThenableJob nat nat

record aggregate =
  agg_values :: "val list"
  agg_remaining :: nat
  agg_called :: "bool list"
  agg_cap :: "nat \<times> nat"

record synch =
  s_index :: nat
  s_promises :: "(nat \<times> nat) list"

record state =
  promises :: "promise list"
  flags :: "bool list"
  aggregates :: "aggregate list"
  synchs :: "synch list"
  queue :: "job list"
  observed :: "(nat \<times> val) list"

definition init :: state where
  "init = \<lparr>promises = [], flags = [], aggregates = [], synchs = [], queue = [],
            observed = []\<rparr>"

definition state_of :: "state \<Rightarrow> nat \<Rightarrow> pstate" where
  "state_of s p = (if p < length (promises s) then pstate (promises s ! p) else Pending)"

definition new_promise :: "state \<Rightarrow> nat \<times> state" where
  "new_promise s =
     (length (promises s),
      s\<lparr>promises := promises s @ [\<lparr>pstate = Pending, reactions = []\<rparr>]\<rparr>)"

definition create_resolving_functions :: "nat \<Rightarrow> state \<Rightarrow> (fn \<times> fn) \<times> state" where
  "create_resolving_functions p s =
     (let f = length (flags s)
      in ((ResolveFn p f, RejectFn p f), s\<lparr>flags := flags s @ [False]\<rparr>))"

definition new_promise_capability :: "state \<Rightarrow> (nat \<times> nat) \<times> state" where
  "new_promise_capability s =
     (let (p, s1) = new_promise s;
          f = length (flags s1);
          (fs, s2) = create_resolving_functions p s1
      in ((p, f), s2))"

definition enqueue :: "job list \<Rightarrow> state \<Rightarrow> state" where
  "enqueue js s = s\<lparr>queue := queue s @ js\<rparr>"

text \<open>
  FulfillPromise and RejectPromise: store the outcome, drop the reactions and queue
  one job for each of them, in the order they were registered. Both assert that the
  promise is pending; a promise that is not is left as it is.
\<close>

definition fulfill_promise :: "nat \<Rightarrow> val \<Rightarrow> state \<Rightarrow> state" where
  "fulfill_promise p v s =
     (if p < length (promises s) \<and> pstate (promises s ! p) = Pending then
        enqueue (map (\<lambda>r. ReactionJob (capability r) Fulfill (on_fulfilled r) v)
                   (reactions (promises s ! p)))
          (s\<lparr>promises := (promises s)[p := \<lparr>pstate = Fulfilled v, reactions = []\<rparr>]\<rparr>)
      else s)"

definition reject_promise :: "nat \<Rightarrow> val \<Rightarrow> state \<Rightarrow> state" where
  "reject_promise p e s =
     (if p < length (promises s) \<and> pstate (promises s ! p) = Pending then
        enqueue (map (\<lambda>r. ReactionJob (capability r) Reject (on_rejected r) e)
                   (reactions (promises s ! p)))
          (s\<lparr>promises := (promises s)[p := \<lparr>pstate = Rejected e, reactions = []\<rparr>]\<rparr>)
      else s)"

definition flag_set :: "state \<Rightarrow> nat \<Rightarrow> bool" where
  "flag_set s f = (f < length (flags s) \<and> flags s ! f)"

text \<open>
  The promise resolve function: nothing when the flag is set; otherwise set it, and
  fulfil with a plain value, reject a self-resolution, or queue the job that will
  call \<open>then\<close> of a thenable.
\<close>

definition call_resolve :: "nat \<Rightarrow> nat \<Rightarrow> resolution \<Rightarrow> state \<Rightarrow> state" where
  "call_resolve p f x s =
     (if flag_set s f then s
      else
        let s1 = s\<lparr>flags := (flags s)[f := True]\<rparr>
        in case x of
             Plain v \<Rightarrow> fulfill_promise p v s1
           | Thenable q \<Rightarrow>
               if q = p then
                 reject_promise p (Err TypeError) s1
               else enqueue [ResolveThenableJob p q] s1)"

definition call_reject :: "nat \<Rightarrow> nat \<Rightarrow> val \<Rightarrow> state \<Rightarrow> state" where
  "call_reject p f e s =
     (if flag_set s f then s
      else reject_promise p e (s\<lparr>flags := (flags s)[f := True]\<rparr>))"

text \<open>PerformPromiseThen and \<open>Promise.prototype.then\<close>.\<close>

definition perform_then ::
  "nat \<Rightarrow> nat \<times> nat \<Rightarrow> fn option \<Rightarrow> fn option \<Rightarrow> state \<Rightarrow> state" where
  "perform_then p cap onF onR s =
     (if p < length (promises s) then
        (case pstate (promises s ! p) of
           Pending \<Rightarrow>
             s\<lparr>promises := (promises s)[p := (promises s ! p)
                  \<lparr>reactions := reactions (promises s ! p) @
                     [\<lparr>capability = cap, on_fulfilled = onF, on_rejected = onR\<rparr>]\<rparr>]\<rparr>
         | Fulfilled v \<Rightarrow> enqueue [ReactionJob cap Fulfill onF v] s
         | Rejected e \<Rightarrow> enqueue [ReactionJob cap Reject onR e] s)
      else s)"

definition promise_then :: "nat \<Rightarrow> fn option \<Rightarrow> fn option \<Rightarrow> state \<Rightarrow> nat \<times> state" where
  "promise_then p onF onR s =
     (let (cap, s1) = new_promise_capability s
      in (fst cap, perform_then p cap onF onR s1))"

text \<open>\<open>Promise.resolve(x)\<close> for a value that is not a promise.\<close>

definition promise_resolve_value :: "val \<Rightarrow> state \<Rightarrow> nat \<times> state" where
  "promise_resolve_value v s =
     (let ((p, f), s1) = new_promise_capability s
      in (p, call_resolve p f (Plain v) s1))"

subsection \<open>The map of a \<open>PromiseSynch\<close>\<close>

text \<open>A \<open>Map\<close> keeps its entries in insertion order.\<close>

definition map_set :: "nat \<Rightarrow> nat \<Rightarrow> (nat \<times> nat) list \<Rightarrow> (nat \<times> nat) list" where
  "map_set k v m =
     (if k \<in> fst ` set m then map (\<lambda>(k', v'). if k' = k then (k', v) else (k', v')) m
      else m @ [(k, v)])"

definition map_delete :: "nat \<Rightarrow> (nat \<times> nat) list \<Rightarrow> bool \<times> (nat \<times> nat) list" where
  "map_delete k m = (k \<in> fst ` set m, filter (\<lambda>(k', v'). k' \<noteq> k) m)"

definition synch_delete :: "nat \<Rightarrow> nat \<Rightarrow> state \<Rightarrow> bool \<times> state" where
  "synch_delete y k s =
     (if y < length (synchs s) then
        (let (b, m) = map_delete k (s_promises (synchs s ! y))
         in (b, s\<lparr>synchs := (synchs s)[y := (synchs s ! y)\<lparr>s_promises := m\<rparr>]\<rparr>))
      else (False, s))"

subsection \<open>Calling a function object\<close>

text \<open>
  The element functions of \<open>Promise.all\<close> and \<open>Promise.allSettled\<close>: once per
  element, store the value, count down, and resolve the result with the array when
  the count reaches zero.
\<close>

definition element_call :: "nat \<Rightarrow> nat \<Rightarrow> val \<Rightarrow> state \<Rightarrow> state" where
  "element_call a i v s =
     (if a < length (aggregates s) then
        (let g = aggregates s ! a in
         if i < length (agg_called g) \<and> agg_called g ! i then s
         else
           let g1 = g\<lparr>agg_called := (agg_called g)[i := True],
                      agg_values := (agg_values g)[i := v],
                      agg_remaining := agg_remaining g - 1\<rparr>;
               s1 = s\<lparr>aggregates := (aggregates s)[a := g1]\<rparr>
           in if agg_remaining g1 = 0
              then call_resolve (fst (agg_cap g1)) (snd (agg_cap g1))
                     (Plain (Arr (agg_values g1))) s1
              else s1)
      else s)"

text \<open>
  The closures of \<open>finally\<close>: call \<open>onFinally\<close> (here the deletion of ticket \<open>k\<close>, which
  returns a boolean), wrap its result in a promise, and return
  \<open>promise.then(thunk)\<close> where the thunk gives back the original outcome.
\<close>

definition finally_call :: "nat \<Rightarrow> nat \<Rightarrow> fn \<Rightarrow> state \<Rightarrow> completion \<times> state" where
  "finally_call y k thunk s =
     (let (b, s1) = synch_delete y k s;
          (p, s2) = promise_resolve_value (Prim (Boolean b)) s1;
          (q, s3) = promise_then p (Some thunk) None s2
      in (Return (Thenable q), s3))"

fun call_fn :: "fn \<Rightarrow> val \<Rightarrow> state \<Rightarrow> completion \<times> state" where
  "call_fn (ResolveFn p f) v s = (Return (Plain (Prim Undefined)), call_resolve p f (Plain v) s)"
| "call_fn (RejectFn p f) v s = (Return (Plain (Prim Undefined)), call_reject p f v s)"
| "call_fn (AllResolveElement a i) v s =
     (Return (Plain (Prim Undefined)), element_call a i v s)"
| "call_fn (SettledResolveElement a i) v s =
     (Return (Plain (Prim Undefined)), element_call a i (FulfilledRecord v) s)"
| "call_fn (SettledRejectElement a i) v s =
     (Return (Plain (Prim Undefined)), element_call a i (RejectedRecord v) s)"
| "call_fn (ThenFinally y k) v s = finally_call y k (ValueThunk v) s"
| "call_fn (CatchFinally y k) v s = finally_call y k (Thrower v) s"
| "call_fn (ValueThunk w) v s = (Return (Plain w), s)"
| "call_fn (Thrower e) v s = (Throw e, s)"
| "call_fn (Observer t) v s =
     (Return (Plain (Prim Undefined)), s\<lparr>observed := observed s @ [(t, v)]\<rparr>)"
| "call_fn (UserFn g) v s = (g v, s)"

text \<open>
  A resolving function called by its holder; the argument may be a promise. Only the
  resolving functions are held by the library's objects.
\<close>

fun call_resolving :: "fn \<Rightarrow> resolution \<Rightarrow> state \<Rightarrow> state" where
  "call_resolving (ResolveFn p f) x s = call_resolve p f x s"
| "call_resolving h (Plain v) s = snd (call_fn h v s)"
| "call_resolving h (Thenable q) s = s"

subsection \<open>Promise jobs\<close>

definition run_job :: "job \<Rightarrow> state \<Rightarrow> state" where
  "run_job j s =
     (case j of
        ReactionJob cap t h arg \<Rightarrow>
          (let (r, s1) =
                 (case h of
                    None \<Rightarrow> (case t of Fulfill \<Rightarrow> (Return (Plain arg), s)
                                       | Reject \<Rightarrow> (Throw arg, s))
                  | Some g \<Rightarrow> call_fn g arg s)
           in case r of
                Return x \<Rightarrow> call_resolve (fst cap) (snd cap) x s1
              | Throw e \<Rightarrow> call_reject (fst cap) (snd cap) e s1)
      | ResolveThenableJob p q \<Rightarrow>
          (let ((res, rej), s1) = create_resolving_functions p s
           in snd (promise_then q (Some res) (Some rej) s1)))"

text \<open>One turn of the scheduler: the oldest job is taken from the queue and run.\<close>

definition tick :: "state \<Rightarrow> state" where
  "tick s = (case queue s of [] \<Rightarrow> s | j # js \<Rightarrow> run_job j (s\<lparr>queue := js\<rparr>))"



subsection \<open>\<open>Promise.all\<close>, \<open>Promise.race\<close>, \<open>Promise.allSettled\<close>\<close>

text \<open>
  The three take an iterable of promises here (the library passes its own promises),
  so \<open>Promise.resolve(next)\<close> is \<open>next\<close> itself.
\<close>

definition new_aggregate :: "nat \<times> nat \<Rightarrow> state \<Rightarrow> nat \<times> state" where
  "new_aggregate cap s =
     (length (aggregates s),
      s\<lparr>aggregates := aggregates s @
           [\<lparr>agg_values = [], agg_remaining = 1, agg_called = [], agg_cap = cap\<rparr>]\<rparr>)"

definition aggregate_next :: "nat \<Rightarrow> state \<Rightarrow> state" where
  "aggregate_next a s =
     (if a < length (aggregates s) then
        (let g = aggregates s ! a
         in s\<lparr>aggregates := (aggregates s)[a := g
                \<lparr>agg_values := agg_values g @ [Prim Undefined],
                 agg_called := agg_called g @ [False],
                 agg_remaining := agg_remaining g + 1\<rparr>]\<rparr>)
      else s)"

definition aggregate_finish :: "nat \<Rightarrow> state \<Rightarrow> state" where
  "aggregate_finish a s =
     (if a < length (aggregates s) then
        (let g = aggregates s ! a;
             g1 = g\<lparr>agg_remaining := agg_remaining g - 1\<rparr>;
             s1 = s\<lparr>aggregates := (aggregates s)[a := g1]\<rparr>
         in if agg_remaining g1 = 0
            then call_resolve (fst (agg_cap g1)) (snd (agg_cap g1))
                   (Plain (Arr (agg_values g1))) s1
            else s1)
      else s)"

fun all_loop :: "nat \<Rightarrow> nat \<times> nat \<Rightarrow> nat \<Rightarrow> nat list \<Rightarrow> state \<Rightarrow> state" where
  "all_loop a cap i [] s = s"
| "all_loop a cap i (p # ps) s =
     all_loop a cap (Suc i) ps
       (snd (promise_then p (Some (AllResolveElement a i))
               (Some (RejectFn (fst cap) (snd cap))) (aggregate_next a s)))"

definition promise_all :: "nat list \<Rightarrow> state \<Rightarrow> nat \<times> state" where
  "promise_all ps s =
     (let (cap, s1) = new_promise_capability s;
          (a, s2) = new_aggregate cap s1
      in (fst cap, aggregate_finish a (all_loop a cap 0 ps s2)))"

fun race_loop :: "nat \<times> nat \<Rightarrow> nat list \<Rightarrow> state \<Rightarrow> state" where
  "race_loop cap [] s = s"
| "race_loop cap (p # ps) s =
     race_loop cap ps
       (snd (promise_then p (Some (ResolveFn (fst cap) (snd cap)))
               (Some (RejectFn (fst cap) (snd cap))) s))"

definition promise_race :: "nat list \<Rightarrow> state \<Rightarrow> nat \<times> state" where
  "promise_race ps s =
     (let (cap, s1) = new_promise_capability s
      in (fst cap, race_loop cap ps s1))"

fun settled_loop :: "nat \<Rightarrow> nat \<Rightarrow> nat list \<Rightarrow> state \<Rightarrow> state" where
  "settled_loop a i [] s = s"
| "settled_loop a i (p # ps) s =
     settled_loop a (Suc i) ps
       (snd (promise_then p (Some (SettledResolveElement a i))
               (Some (SettledRejectElement a i)) (aggregate_next a s)))"

definition promise_allSettled :: "nat list \<Rightarrow> state \<Rightarrow> nat \<times> state" where
  "promise_allSettled ps s =
     (let (cap, s1) = new_promise_capability s;
          (a, s2) = new_aggregate cap s1
      in (fst cap, aggregate_finish a (settled_loop a 0 ps s2)))"

section \<open>The library\<close>

subsection \<open>\<open>DeferredPromise\<close>\<close>

record deferred =
  d_promise :: nat
  d_resolve :: fn
  d_reject :: fn

text \<open>
  The constructor: \<open>new Promise\<close> makes the promise and its resolving functions and
  hands them to the executor, which stores them in the object.
\<close>

definition DeferredPromise_new :: "state \<Rightarrow> deferred \<times> state" where
  "DeferredPromise_new s =
     (let (p, s1) = new_promise s;
          ((res, rej), s2) = create_resolving_functions p s1
      in (\<lparr>d_promise = p, d_resolve = res, d_reject = rej\<rparr>, s2))"

text \<open>
  \<open>d.resolve(x)\<close>. A program holds a \<open>DeferredPromise\<close> as the wrapper object, never
  as the promise it wraps, so \<open>Thenable (d_promise d)\<close> stands for the wrapper \<open>d\<close>
  where a program passes it. Passed to its own \<open>resolve\<close> the wrapper is a thenable
  like any other: the resolve function compares it with the wrapped promise, finds
  them different and detects no cycle; it queues the job that calls \<open>d.then\<close>, which is
  \<open>then\<close> of the wrapped promise, on the resolving functions of the same promise, which
  therefore stays pending.
\<close>

definition resolve_with_wrapper :: "nat \<Rightarrow> nat \<Rightarrow> state \<Rightarrow> state" where
  "resolve_with_wrapper p f s =
     (if flag_set s f then s
      else enqueue [ResolveThenableJob p p] (s\<lparr>flags := (flags s)[f := True]\<rparr>))"

fun resolve_with_own_wrapper :: "fn \<Rightarrow> state \<Rightarrow> state" where
  "resolve_with_own_wrapper (ResolveFn p f) s = resolve_with_wrapper p f s"
| "resolve_with_own_wrapper h s = s"

definition DeferredPromise_resolve :: "deferred \<Rightarrow> resolution \<Rightarrow> state \<Rightarrow> state" where
  "DeferredPromise_resolve d x s =
     (if x = Thenable (d_promise d) then resolve_with_own_wrapper (d_resolve d) s
      else call_resolving (d_resolve d) x s)"

definition DeferredPromise_reject :: "deferred \<Rightarrow> val \<Rightarrow> state \<Rightarrow> state" where
  "DeferredPromise_reject d e s = call_resolving (d_reject d) (Plain e) s"


definition DeferredPromise_catch :: "deferred \<Rightarrow> fn option \<Rightarrow> state \<Rightarrow> nat \<times> state" where
  "DeferredPromise_catch d onR s = promise_then (d_promise d) None onR s"

subsection \<open>\<open>Barrier\<close>\<close>

record barrier =
  b_length :: prim
  b_promises :: "nat list"
  b_resolveFunctions :: "fn list"

text \<open>
  The callback of \<open>Array.from({length}, ...)\<close>, run \<open>n\<close> times: a new promise, pushed
  on \<open>#promises\<close>, whose resolve function is the element of \<open>#resolveFunctions\<close>.
\<close>

fun make_slots :: "nat \<Rightarrow> state \<Rightarrow> (nat list \<times> fn list) \<times> state" where
  "make_slots 0 s = (([], []), s)"
| "make_slots (Suc n) s =
     (let (p, s1) = new_promise s;
          ((res, rej), s2) = create_resolving_functions p s1;
          ((ps, fs), s3) = make_slots n s2
      in ((p # ps, res # fs), s3))"

text \<open>
  The constructor. \<open>Array.from\<close> reads the length with \<open>ToLength\<close>, which throws a
  TypeError on a bigint, and creates the array with \<open>new Array(len)\<close>, which throws a
  RangeError from \<open>2^32\<close> on.
\<close>

definition Barrier_new :: "prim \<Rightarrow> state \<Rightarrow> (error + barrier) \<times> state" where
  "Barrier_new len s =
     (if invalid_arg len then (Inl (RangeError ''Invalid length''), s)
      else case ToLength len of
             None \<Rightarrow> (Inl TypeError, s)
           | Some n \<Rightarrow>
               if n > 2 ^ 32 - 1 then (Inl (RangeError ''Invalid array length''), s)
               else
                 let ((ps, fs), s1) = make_slots (nat n) s
                 in (Inr \<lparr>b_length = len, b_promises = ps, b_resolveFunctions = fs\<rparr>, s1))"

definition Barrier_resolve ::
  "barrier \<Rightarrow> prim \<Rightarrow> resolution \<Rightarrow> state \<Rightarrow> error option \<times> state" where
  "Barrier_resolve b index v s =
     (if invalid_arg index then (Some (RangeError ''Invalid index''), s)
      else case array_get (b_resolveFunctions b) index of
             None \<Rightarrow> (Some TypeError, s)
           | Some h \<Rightarrow> (None, call_resolving h v s))"

definition Barrier_all :: "barrier \<Rightarrow> state \<Rightarrow> nat \<times> state" where
  "Barrier_all b s = promise_all (b_promises b) s"

definition Barrier_race :: "barrier \<Rightarrow> state \<Rightarrow> nat \<times> state" where
  "Barrier_race b s = promise_race (b_promises b) s"

subsection \<open>\<open>PromiseSynch\<close>\<close>

definition PromiseSynch_new :: "state \<Rightarrow> nat \<times> state" where
  "PromiseSynch_new s =
     (length (synchs s), s\<lparr>synchs := synchs s @ [\<lparr>s_index = 0, s_promises = []\<rparr>]\<rparr>)"

text \<open>
  \<open>add\<close>: take the ticket and advance the counter, chain \<open>finally\<close> with the closure
  that deletes the ticket, and store the chained promise under the ticket.
\<close>

definition PromiseSynch_add :: "nat \<Rightarrow> nat \<Rightarrow> state \<Rightarrow> state" where
  "PromiseSynch_add y p s =
     (if y < length (synchs s) then
        (let index = s_index (synchs s ! y);
             s1 = s\<lparr>synchs := (synchs s)[y := (synchs s ! y)\<lparr>s_index := index + 1\<rparr>]\<rparr>;
             (q, s2) = promise_then p (Some (ThenFinally y index)) (Some (CatchFinally y index)) s1
         in s2\<lparr>synchs := (synchs s2)[y := (synchs s2 ! y)
                 \<lparr>s_promises := map_set index q (s_promises (synchs s2 ! y))\<rparr>]\<rparr>)
      else s)"

definition PromiseSynch_allSettled :: "nat \<Rightarrow> fn option \<Rightarrow> state \<Rightarrow> nat \<times> state" where
  "PromiseSynch_allSettled y onsettled s =
     (let (r, s1) = promise_allSettled
                      (if y < length (synchs s) then map snd (s_promises (synchs s ! y)) else []) s
      in case onsettled of
           None \<Rightarrow> (r, s1)
         | Some h \<Rightarrow> promise_then r (Some h) None s1)"

section \<open>Well-formed objects and example states\<close>

text \<open>The state after the constructor of \<open>Barrier\<close> has made \<open>n\<close> slots.\<close>

definition slots_state :: "nat \<Rightarrow> state \<Rightarrow> state" where
  "slots_state n s =
     s\<lparr>promises := promises s @ replicate n \<lparr>pstate = Pending, reactions = []\<rparr>,
       flags := flags s @ replicate n False\<rparr>"

text \<open>
  A barrier as its constructor leaves it, seen from a state in which its promises and
  flags exist: slot \<open>i\<close> holds the resolve function of promise \<open>i\<close> of the barrier.
\<close>

definition barrier_ok :: "barrier \<Rightarrow> state \<Rightarrow> bool" where
  "barrier_ok b s =
     (length (b_resolveFunctions b) = length (b_promises b) \<and>
      list_all (\<lambda>i. b_promises b ! i < length (promises s) \<and>
                   (case b_resolveFunctions b ! i of
                      ResolveFn p f \<Rightarrow> p = b_promises b ! i \<and> f < length (flags s)
                    | _ \<Rightarrow> False))
        [0..<length (b_promises b)])"

definition slot_flag :: "barrier \<Rightarrow> nat \<Rightarrow> nat" where
  "slot_flag b i = (case b_resolveFunctions b ! i of ResolveFn p f \<Rightarrow> f | _ \<Rightarrow> 0)"





text \<open>The state after NewPromiseCapability.\<close>

definition alloc_cap :: "state \<Rightarrow> state" where
  "alloc_cap s = s\<lparr>promises := promises s @ [\<lparr>pstate = Pending, reactions = []\<rparr>],
                   flags := flags s @ [False]\<rparr>"

text \<open>The queue of the second state is the queue of the first with jobs added at its end.\<close>

definition extends :: "state \<Rightarrow> state \<Rightarrow> bool" where
  "extends s s' = (\<exists>js. queue s' = queue s @ js)"





text \<open>The capabilities that \<open>then\<close> makes for a list of continuations attached in state \<open>s\<close>.\<close>

definition caps_from :: "state \<Rightarrow> nat list \<Rightarrow> ((nat \<times> nat) \<times> nat) list" where
  "caps_from s ts =
     map (\<lambda>i. ((length (promises s) + i, length (flags s) + i), ts ! i)) [0..<length ts]"



text \<open>The reactions registered on a promise; none for an identifier that is not allocated.\<close>

definition reactions_of :: "state \<Rightarrow> nat \<Rightarrow> reaction list" where
  "reactions_of s p = (if p < length (promises s) then reactions (promises s ! p) else [])"

text \<open>The job that settling a promise queues for one of its reactions.\<close>

definition reaction_job :: "rtype \<Rightarrow> val \<Rightarrow> reaction \<Rightarrow> job" where
  "reaction_job ty v r =
     ReactionJob (capability r) ty (case ty of Fulfill \<Rightarrow> on_fulfilled r | Reject \<Rightarrow> on_rejected r) v"

definition settle_jobs :: "state \<Rightarrow> nat \<Rightarrow> rtype \<Rightarrow> val \<Rightarrow> job list" where
  "settle_jobs s p ty v =
     (if p < length (promises s) \<and> state_of s p = Pending
      then map (reaction_job ty v) (reactions_of s p) else [])"

definition can_settle :: "state \<Rightarrow> nat \<Rightarrow> bool" where
  "can_settle s p = (p < length (promises s) \<and> state_of s p = Pending)"

text \<open>Settling: the common shape of FulfillPromise and RejectPromise.\<close>

definition settle :: "nat \<Rightarrow> rtype \<Rightarrow> val \<Rightarrow> state \<Rightarrow> state" where
  "settle p ty v s =
     (case ty of Fulfill \<Rightarrow> fulfill_promise p v s | Reject \<Rightarrow> reject_promise p v s)"

definition outcome :: "rtype \<Rightarrow> val \<Rightarrow> pstate" where
  "outcome ty v = (case ty of Fulfill \<Rightarrow> Fulfilled v | Reject \<Rightarrow> Rejected v)"

text \<open>
  Ownership. A promise \<open>r\<close> with the flag \<open>fr\<close> of its resolving functions and,
  optionally, a record \<open>a\<close> of element functions are owned by one call of
  \<open>Promise.all\<close>, \<open>Promise.race\<close> or \<open>Promise.allSettled\<close>. A function object is foreign
  to them when it can neither resolve \<open>r\<close>, nor touch \<open>fr\<close>, nor touch \<open>a\<close>.
\<close>

fun foreign_fn :: "nat \<Rightarrow> nat \<Rightarrow> nat option \<Rightarrow> fn \<Rightarrow> bool" where
  "foreign_fn r fr a (ResolveFn p f) = (p \<noteq> r \<and> f \<noteq> fr)"
| "foreign_fn r fr a (RejectFn p f) = (p \<noteq> r \<and> f \<noteq> fr)"
| "foreign_fn r fr a (AllResolveElement b i) = (Some b \<noteq> a)"
| "foreign_fn r fr a (SettledResolveElement b i) = (Some b \<noteq> a)"
| "foreign_fn r fr a (SettledRejectElement b i) = (Some b \<noteq> a)"
| "foreign_fn r fr a h = True"

definition foreign_opt :: "nat \<Rightarrow> nat \<Rightarrow> nat option \<Rightarrow> fn option \<Rightarrow> bool" where
  "foreign_opt r fr a h = (case h of None \<Rightarrow> True | Some g \<Rightarrow> foreign_fn r fr a g)"

definition foreign_cap :: "nat \<Rightarrow> nat \<Rightarrow> nat \<times> nat \<Rightarrow> bool" where
  "foreign_cap r fr c = (fst c \<noteq> r \<and> snd c \<noteq> fr)"

definition foreign_reaction :: "nat \<Rightarrow> nat \<Rightarrow> nat option \<Rightarrow> reaction \<Rightarrow> bool" where
  "foreign_reaction r fr a x =
     (foreign_cap r fr (capability x) \<and> foreign_opt r fr a (on_fulfilled x) \<and>
      foreign_opt r fr a (on_rejected x))"

fun foreign_job :: "nat \<Rightarrow> nat \<Rightarrow> nat option \<Rightarrow> job \<Rightarrow> bool" where
  "foreign_job r fr a (ReactionJob c ty h v) = (foreign_cap r fr c \<and> foreign_opt r fr a h)"
| "foreign_job r fr a (ResolveThenableJob p q) = (p \<noteq> r)"

text \<open>
  The identifiers an operation allocates between two states are not the owned ones:
  the owned ones exist before, or do not exist after.
\<close>

definition clear :: "nat \<Rightarrow> nat \<Rightarrow> nat option \<Rightarrow> state \<Rightarrow> state \<Rightarrow> bool" where
  "clear r fr a s s' =
     ((r < length (promises s) \<or> length (promises s') \<le> r) \<and>
      (fr < length (flags s) \<or> length (flags s') \<le> fr) \<and>
      (case a of None \<Rightarrow> True
       | Some b \<Rightarrow> b < length (aggregates s) \<or> length (aggregates s') \<le> b))"

text \<open>The stores only grow.\<close>

definition grows :: "state \<Rightarrow> state \<Rightarrow> bool" where
  "grows s s' =
     (length (promises s) \<le> length (promises s') \<and> length (flags s) \<le> length (flags s') \<and>
      length (aggregates s) \<le> length (aggregates s'))"

text \<open>
  What a step that is foreign to \<open>r\<close>, \<open>fr\<close>, \<open>a\<close> may do: grow the stores; add jobs at
  the end of the queue, each foreign or the job of a reaction of a promise that the
  step settles; settle pending promises, queueing the job of every reaction they had;
  add foreign reactions to promises; and it leaves \<open>r\<close>, \<open>fr\<close> and \<open>a\<close> alone, as well
  as the capability of every record of element functions.
\<close>

definition frame :: "nat \<Rightarrow> nat \<Rightarrow> nat option \<Rightarrow> state \<Rightarrow> state \<Rightarrow> bool" where
  "frame r fr a s s' =
     (grows s s' \<and>
      (\<exists>new. queue s' = queue s @ new \<and>
         (\<forall>j \<in> set new. foreign_job r fr a j \<or>
            (\<exists>q ty v x. x \<in> set (reactions_of s q) \<and> can_settle s q \<and>
               state_of s' q = outcome ty v \<and> j = reaction_job ty v x)) \<and>
         (\<forall>q ty v. can_settle s q \<and> state_of s' q = outcome ty v \<longrightarrow>
            (\<forall>x \<in> set (reactions_of s q). reaction_job ty v x \<in> set new))) \<and>
      (\<forall>q. state_of s q \<noteq> Pending \<longrightarrow> state_of s' q = state_of s q) \<and>
      (\<forall>q. \<forall>x \<in> set (reactions_of s' q).
         x \<in> set (reactions_of s q) \<or> foreign_reaction r fr a x) \<and>
      (\<forall>q. state_of s' q = Pending \<longrightarrow> set (reactions_of s q) \<subseteq> set (reactions_of s' q)) \<and>
      flag_set s' fr = flag_set s fr \<and>
      state_of s' r = state_of s r \<and>
      (\<forall>b. a = Some b \<and> b < length (aggregates s) \<longrightarrow> aggregates s' ! b = aggregates s ! b) \<and>
      (\<forall>b < length (aggregates s). agg_cap (aggregates s' ! b) = agg_cap (aggregates s ! b)) \<and>
      (\<forall>b. length (aggregates s) \<le> b \<and> b < length (aggregates s') \<and> Some b \<noteq> a \<longrightarrow>
           foreign_cap r fr (agg_cap (aggregates s' ! b))))"

text \<open>Every record of element functions but the owned one has a foreign capability.\<close>

definition caps_foreign :: "nat \<Rightarrow> nat \<Rightarrow> nat option \<Rightarrow> state \<Rightarrow> bool" where
  "caps_foreign r fr a s =
     (\<forall>b < length (aggregates s). Some b \<noteq> a \<longrightarrow> foreign_cap r fr (agg_cap (aggregates s ! b)))"

section \<open>Programs: sequences of calls and scheduler turns\<close>

text \<open>
  The objects a program holds: its \<open>DeferredPromise\<close>s and its \<open>Barrier\<close>s (the
  instances of \<open>PromiseSynch\<close> live in the state, since closures of the runtime refer
  to them). When a continuation of the program is running, \<open>running\<close> holds the
  capability of the promise that \<open>then\<close> returned for it and the completion it will
  return with.
\<close>

record world =
  rt :: state
  deferreds :: "deferred list"
  barriers :: "barrier list"
  running :: "((nat \<times> nat) \<times> completion) option"

definition init_world :: world where
  "init_world = \<lparr>rt = init, deferreds = [], barriers = [], running = None\<rparr>"

text \<open>
  What a program can do: call the library on the objects it holds (named by their
  position), attach a continuation to a promise, and let the scheduler run one job.
  The job that runs may be a continuation of the program, which may itself call the
  library before it returns: when \<open>Tick\<close> starts a continuation, the calls that follow
  are the calls the continuation makes, up to \<open>Returned\<close> (or to the next \<open>Tick\<close>,
  before which it returns).
\<close>

datatype event =
    Tick
  | Returned
  | NewDeferred
  | DResolve nat resolution
  | DReject nat val
  | Then nat "fn option" "fn option"
  | NewBarrier prim
  | BResolve nat prim resolution
  | BAll nat
  | BRace nat
  | NewSynch
  | SAdd nat nat
  | SAllSettled nat "fn option"

text \<open>The continuations a program supplies: none, a recorder, or a function of the value.\<close>

fun user_fn :: "fn option \<Rightarrow> bool" where
  "user_fn None = True"
| "user_fn (Some (Observer t)) = True"
| "user_fn (Some (UserFn g)) = True"
| "user_fn (Some h) = False"

text \<open>
  The job at the head of the queue when it is a continuation of the program: its
  capability, the completion of the continuation, and the rest of the queue.
\<close>

fun user_job :: "job list \<Rightarrow> ((nat \<times> nat) \<times> completion \<times> job list) option" where
  "user_job (ReactionJob cap ty (Some (UserFn g)) arg # js) = Some (cap, g arg, js)"
| "user_job js = None"

text \<open>
  The end of a reaction job: the promise that \<open>then\<close> returned is resolved with the
  value the handler returned, or rejected with what it threw.
\<close>

definition finish_job :: "nat \<times> nat \<Rightarrow> completion \<Rightarrow> state \<Rightarrow> state" where
  "finish_job cap c s =
     (case c of Return x \<Rightarrow> call_resolve (fst cap) (snd cap) x s
              | Throw e \<Rightarrow> call_reject (fst cap) (snd cap) e s)"

text \<open>
  One call of the library, or the return of the running continuation. A call that
  names an object or a promise that does not exist, or hands over a function object of
  the runtime as a continuation, is no call of a program and changes nothing; no job
  runs inside a call.
\<close>

fun call :: "event \<Rightarrow> world \<Rightarrow> world" where
  "call Tick w = w"
| "call Returned w =
     (case running w of
        None \<Rightarrow> w
      | Some (cap, c) \<Rightarrow> w\<lparr>rt := finish_job cap c (rt w), running := None\<rparr>)"
| "call NewDeferred w =
     (let (d, s) = DeferredPromise_new (rt w) in w\<lparr>rt := s, deferreds := deferreds w @ [d]\<rparr>)"
| "call (DResolve i x) w =
     (if i < length (deferreds w)
      then w\<lparr>rt := DeferredPromise_resolve (deferreds w ! i) x (rt w)\<rparr> else w)"
| "call (DReject i v) w =
     (if i < length (deferreds w)
      then w\<lparr>rt := DeferredPromise_reject (deferreds w ! i) v (rt w)\<rparr> else w)"
| "call (Then p F R) w =
     (if p < length (promises (rt w)) \<and> user_fn F \<and> user_fn R
      then w\<lparr>rt := snd (promise_then p F R (rt w))\<rparr> else w)"
| "call (NewBarrier len) w =
     (case Barrier_new len (rt w) of
        (Inl e, s) \<Rightarrow> w\<lparr>rt := s\<rparr>
      | (Inr b, s) \<Rightarrow> w\<lparr>rt := s, barriers := barriers w @ [b]\<rparr>)"
| "call (BResolve i index x) w =
     (if i < length (barriers w)
      then w\<lparr>rt := snd (Barrier_resolve (barriers w ! i) index x (rt w))\<rparr> else w)"
| "call (BAll i) w =
     (if i < length (barriers w)
      then w\<lparr>rt := snd (Barrier_all (barriers w ! i) (rt w))\<rparr> else w)"
| "call (BRace i) w =
     (if i < length (barriers w)
      then w\<lparr>rt := snd (Barrier_race (barriers w ! i) (rt w))\<rparr> else w)"
| "call NewSynch w = w\<lparr>rt := snd (PromiseSynch_new (rt w))\<rparr>"
| "call (SAdd y p) w =
     (if y < length (synchs (rt w)) \<and> p < length (promises (rt w))
      then w\<lparr>rt := PromiseSynch_add y p (rt w)\<rparr> else w)"
| "call (SAllSettled y h) w =
     (if y < length (synchs (rt w)) \<and> user_fn h
      then w\<lparr>rt := snd (PromiseSynch_allSettled y h (rt w))\<rparr> else w)"

text \<open>
  The scheduler takes the next job. A continuation of the program is started: it is
  taken from the queue and runs until it returns. Every other job is run at once.
\<close>

definition next_job :: "world \<Rightarrow> world" where
  "next_job w =
     (case user_job (queue (rt w)) of
        None \<Rightarrow> w\<lparr>rt := tick (rt w)\<rparr>
      | Some (cap, c, js) \<Rightarrow> w\<lparr>rt := (rt w)\<lparr>queue := js\<rparr>, running := Some (cap, c)\<rparr>)"

text \<open>
  One event: a call, or a turn of the job queue, before which the running
  continuation returns.
\<close>

fun step :: "event \<Rightarrow> world \<Rightarrow> world" where
  "step Tick w = next_job (call Returned w)"
| "step e w = call e w"

fun run :: "event list \<Rightarrow> world \<Rightarrow> world" where
  "run [] w = w"
| "run (e # es) w = run es (step e w)"

text \<open>The objects of the program hold no function that is owned.\<close>

definition objs_foreign :: "nat \<Rightarrow> nat \<Rightarrow> nat option \<Rightarrow> world \<Rightarrow> bool" where
  "objs_foreign r fr a w =
     ((\<forall>d \<in> set (deferreds w). foreign_fn r fr a (d_resolve d) \<and> foreign_fn r fr a (d_reject d)) \<and>
      (\<forall>b \<in> set (barriers w). \<forall>h \<in> set (b_resolveFunctions b). foreign_fn r fr a h) \<and>
      (\<forall>cap c. running w = Some (cap, c) \<longrightarrow> foreign_cap r fr cap))"

text \<open>Nothing in the state, and no object of the program, refers to \<open>r\<close>, \<open>fr\<close> or \<open>a\<close>.\<close>

definition unused_state :: "nat \<Rightarrow> nat \<Rightarrow> nat option \<Rightarrow> state \<Rightarrow> bool" where
  "unused_state r fr a s =
     ((\<forall>q. \<forall>x \<in> set (reactions_of s q). foreign_reaction r fr a x) \<and>
      (\<forall>j \<in> set (queue s). foreign_job r fr a j) \<and>
      caps_foreign r fr a s)"

definition unused :: "nat \<Rightarrow> nat \<Rightarrow> nat option \<Rightarrow> world \<Rightarrow> bool" where
  "unused r fr a w = (unused_state r fr a (rt w) \<and> objs_foreign r fr a w)"

text \<open>
  Every identifier that occurs in a world is allocated: the identifiers that are not
  are unused.
\<close>

definition wf :: "world \<Rightarrow> bool" where
  "wf w =
     (\<forall>r fr a. length (promises (rt w)) \<le> r \<and> length (flags (rt w)) \<le> fr \<and>
        length (aggregates (rt w)) \<le> a \<longrightarrow> unused r fr (Some a) w)"

section \<open>\<open>Barrier.race\<close>\<close>

text \<open>
  The reactions that \<open>Promise.race\<close> registers for its result \<open>r\<close> (flag \<open>fr\<close>), and the
  jobs they become.
\<close>

definition race_handler :: "nat \<Rightarrow> nat \<Rightarrow> rtype \<Rightarrow> fn" where
  "race_handler r fr ty = (case ty of Fulfill \<Rightarrow> ResolveFn r fr | Reject \<Rightarrow> RejectFn r fr)"

definition race_reaction :: "nat \<Rightarrow> nat \<Rightarrow> reaction \<Rightarrow> bool" where
  "race_reaction r fr x =
     (foreign_cap r fr (capability x) \<and> on_fulfilled x = Some (ResolveFn r fr) \<and>
      on_rejected x = Some (RejectFn r fr))"

fun race_job :: "nat \<Rightarrow> nat \<Rightarrow> job \<Rightarrow> bool" where
  "race_job r fr (ReactionJob c ty h v) =
     (foreign_cap r fr c \<and> h = Some (race_handler r fr ty))"
| "race_job r fr (ResolveThenableJob p q) = False"

fun job_outcome :: "job \<Rightarrow> pstate" where
  "job_outcome (ReactionJob c ty h v) = outcome ty v"
| "job_outcome (ResolveThenableJob p q) = Pending"

text \<open>
  The invariant of a race over the promises \<open>ps\<close>: only the race's own reactions, on
  the promises \<open>ps\<close>, and the jobs they become can resolve \<open>r\<close>; such a job carries the
  outcome of a settled promise of \<open>ps\<close>; a pending promise of \<open>ps\<close> has a reaction of the
  race; while the flag is unset \<open>r\<close> is pending and a job of the race is queued as soon
  as a promise of \<open>ps\<close> is settled; once the flag is set \<open>r\<close> has the outcome of a promise
  of \<open>ps\<close>.
\<close>

definition race_state :: "nat \<Rightarrow> nat \<Rightarrow> nat list \<Rightarrow> state \<Rightarrow> bool" where
  "race_state r fr ps s =
     (r < length (promises s) \<and> fr < length (flags s) \<and> r \<notin> set ps \<and>
      (\<forall>p \<in> set ps. p < length (promises s)) \<and>
      (\<forall>q. \<forall>x \<in> set (reactions_of s q).
         foreign_reaction r fr None x \<or> (q \<in> set ps \<and> race_reaction r fr x)) \<and>
      (\<forall>j \<in> set (queue s).
         foreign_job r fr None j \<or>
         (race_job r fr j \<and> (\<exists>p \<in> set ps. state_of s p = job_outcome j))) \<and>
      (\<forall>p \<in> set ps. state_of s p = Pending \<longrightarrow>
         (\<exists>x \<in> set (reactions_of s p). race_reaction r fr x)) \<and>
      (\<not> flag_set s fr \<longrightarrow>
         state_of s r = Pending \<and>
         (\<forall>p \<in> set ps. state_of s p \<noteq> Pending \<longrightarrow> (\<exists>j \<in> set (queue s). race_job r fr j))) \<and>
      (flag_set s fr \<longrightarrow>
         state_of s r \<noteq> Pending \<and> (\<exists>p \<in> set ps. state_of s p = state_of s r)) \<and>
      caps_foreign r fr None s)"

text \<open>
  The outcome the race is bound to: the outcome of \<open>r\<close> once the flag is set, before
  that the outcome carried by the first job of the race in the queue.
\<close>

definition winner :: "nat \<Rightarrow> nat \<Rightarrow> state \<Rightarrow> pstate option" where
  "winner r fr s =
     (if flag_set s fr then Some (state_of s r)
      else case filter (race_job r fr) (queue s) of
             [] \<Rightarrow> None
           | j # js \<Rightarrow> Some (job_outcome j))"

text \<open>The call of the race's resolving function by one of its jobs.\<close>

definition race_call :: "nat \<Rightarrow> nat \<Rightarrow> rtype \<Rightarrow> val \<Rightarrow> state \<Rightarrow> state" where
  "race_call r fr ty v s =
     (if flag_set s fr then s else settle r ty v (s\<lparr>flags := (flags s)[fr := True]\<rparr>))"

text \<open>The invariant of a race, with the objects of the program.\<close>

definition race_inv :: "nat \<Rightarrow> nat \<Rightarrow> nat list \<Rightarrow> world \<Rightarrow> bool" where
  "race_inv r fr ps w = (race_state r fr ps (rt w) \<and> objs_foreign r fr None w)"

text \<open>Every barrier of the program is as its constructor left it.\<close>

definition objs_ok :: "world \<Rightarrow> bool" where
  "objs_ok w = (\<forall>b \<in> set (barriers w). barrier_ok b (rt w))"

text \<open>
  The number of turns of the job queue after which the race is decided: none once its
  flag is set, and else one more than the jobs ahead of the first job of the race.
\<close>

definition race_lead :: "nat \<Rightarrow> nat \<Rightarrow> state \<Rightarrow> nat" where
  "race_lead r fr s =
     (if flag_set s fr then 0
      else Suc (length (takeWhile (\<lambda>j. \<not> race_job r fr j) (queue s))))"

fun count_ticks :: "event list \<Rightarrow> nat" where
  "count_ticks [] = 0"
| "count_ticks (Tick # es) = Suc (count_ticks es)"
| "count_ticks (e # es) = count_ticks es"

text \<open>
  The outcome of the settled promise of lowest index among \<open>ps\<close>, if one of them is
  settled.
\<close>

definition first_settled :: "state \<Rightarrow> nat list \<Rightarrow> pstate option" where
  "first_settled s ps =
     (case filter (\<lambda>p. state_of s p \<noteq> Pending) ps of
        [] \<Rightarrow> None
      | p # qs \<Rightarrow> Some (state_of s p))"

text \<open>
  Two programs for a race on a barrier of size two. In the first, a continuation is
  attached to a \<open>DeferredPromise\<close> that is then resolved; the race is called while both
  slots are pending; the continuation runs and resolves slot 0 with \<open>''a''\<close>, then slot
  1 with \<open>''b''\<close>, and returns; the job queue runs three turns. In the second, slot 1 is
  resolved with \<open>''b''\<close> before the race is called, slot 0 with \<open>''a''\<close> after it, and
  the job queue runs two turns.
\<close>

definition race_w1 :: world where
  "race_w1 = run [NewBarrier (Number (Finite 2)), NewDeferred,
                  Then 2 (Some (UserFn (\<lambda>v. Return (Plain v)))) None,
                  DResolve 0 (Plain (Str ''x''))] init_world"

definition race_w3 :: world where
  "race_w3 = run [Tick, BResolve 0 (Number (Finite 0)) (Plain (Str ''a''))]
               (race_w1\<lparr>rt := snd (Barrier_race (barriers race_w1 ! 0) (rt race_w1))\<rparr>)"

definition race_es :: "event list" where
  "race_es = [BResolve 0 (NumeralString 1) (Plain (Str ''b'')), Returned, Tick, Tick, Tick]"

definition race_w5 :: world where
  "race_w5 = run race_es race_w3"

definition late_w1 :: world where
  "late_w1 = run [NewBarrier (Number (Finite 2)),
                  BResolve 0 (Number (Finite 1)) (Plain (Str ''b''))] init_world"

definition late_w3 :: world where
  "late_w3 = run [BResolve 0 (Number (Finite 0)) (Plain (Str ''a''))]
               (late_w1\<lparr>rt := snd (Barrier_race (barriers late_w1 ! 0) (rt late_w1))\<rparr>)"

definition late_w5 :: world where
  "late_w5 = run [Tick, Tick] late_w3"

section \<open>Properties\<close>

lemma invalid_arg_iff:
  "invalid_arg x \<longleftrightarrow>
     x \<in> {Undefined, Null, Boolean False, Number NaN, Number NegInf, BigInt 0} \<or>
     (\<exists>r. r < 0 \<and> x = Number (Finite r)) \<or> (\<exists>i. i < 0 \<and> x = BigInt i)"
proof (cases x)
  case (Number n)
  then show ?thesis
    by (cases n) (auto simp: invalid_arg_def strict_ne_zero_def less_zero_def)
qed (auto simp: invalid_arg_def strict_ne_zero_def less_zero_def)

lemma invalid_arg_nat [simp]: "\<not> invalid_arg (Number (Finite (of_nat n)))"
  by (simp add: invalid_arg_iff)

lemma ToLength_nat: "n < 2 ^ 32 \<Longrightarrow> ToLength (Number (Finite (of_nat n))) = Some (int n)"
  by (simp add: ToLength_def)

lemma array_get_nat [simp]:
  "array_get xs (Number (Finite (of_nat i))) = (if i < length xs then Some (xs ! i) else None)"
  by simp

lemma make_slots_eq:
  "make_slots n s =
     (([length (promises s) ..< length (promises s) + n],
       map (\<lambda>i. ResolveFn (length (promises s) + i) (length (flags s) + i)) [0..<n]),
      slots_state n s)"
proof (induction n arbitrary: s)
  case 0
  show ?case by (simp add: slots_state_def)
next
  case (Suc n)
  have 1: "[length (promises s) ..< length (promises s) + Suc n] =
        length (promises s) # [Suc (length (promises s)) ..< Suc (length (promises s)) + n]"
    by (simp add: upt_rec)
  have 2: "map (\<lambda>i. ResolveFn (length (promises s) + i) (length (flags s) + i)) [0..<Suc n] =
     ResolveFn (length (promises s)) (length (flags s)) #
     map (\<lambda>i. ResolveFn (Suc (length (promises s)) + i) (Suc (length (flags s)) + i)) [0..<n]"
    by (simp add: upt_rec[of 0] map_Suc_upt[symmetric] del: upt_Suc)
  show ?case
    unfolding 1 2
    by (simp add: Suc.IH new_promise_def create_resolving_functions_def Let_def
        slots_state_def replicate_app_Cons_same del: upt_Suc)
qed

lemma state_of_enqueue [simp]: "state_of (enqueue js s) q = state_of s q"
  by (simp add: state_of_def enqueue_def)

lemma state_of_flags_update [simp]: "state_of (s\<lparr>flags := fl\<rparr>) q = state_of s q"
  by (simp add: state_of_def)





lemma barrier_okD:
  assumes "barrier_ok b s" "i < length (b_promises b)"
  shows "b_resolveFunctions b ! i = ResolveFn (b_promises b ! i) (slot_flag b i)"
    and "b_promises b ! i < length (promises s)"
    and "slot_flag b i < length (flags s)"
    and "i < length (b_resolveFunctions b)"
  using assms
  by (auto simp: barrier_ok_def list_all_iff slot_flag_def split: fn.splits)

text \<open>
  Claim C3, as amended. Constructing a barrier with a non-negative integer length
  \<open>n\<close> below \<open>2^32\<close> (zero included) succeeds: it makes exactly \<open>n\<close> new pending
  promises, one resolve function for each with a flag of its own, and leaves every
  older promise as it was. Constructing with \<open>undefined\<close>, \<open>null\<close>, \<open>false\<close>,
  \<open>NaN\<close> or a negative number returns the RangeError at once and leaves the state
  untouched (no promise is made, so nothing is rejected).
\<close>

theorem Barrier_new_spec:
  "(n < 2 ^ 32 \<longrightarrow>
      (\<exists>b s'. Barrier_new (Number (Finite (of_nat n))) s = (Inr b, s') \<and>
         b_length b = Number (Finite (of_nat n)) \<and>
         b_promises b = [length (promises s) ..< length (promises s) + n] \<and>
         length (b_resolveFunctions b) = n \<and>
         barrier_ok b s' \<and>
         (\<forall>i<n. state_of s' (b_promises b ! i) = Pending \<and>
                \<not> flag_set s' (slot_flag b i) \<and>
                (\<forall>j<n. j \<noteq> i \<longrightarrow> slot_flag b j \<noteq> slot_flag b i)) \<and>
         (\<forall>p<length (promises s). state_of s' p = state_of s p))) \<and>
   (len \<in> {Undefined, Null, Boolean False, Number NaN, Number NegInf} \<or>
    (\<exists>r. r < 0 \<and> len = Number (Finite r)) \<longrightarrow>
      Barrier_new len s = (Inl (RangeError ''Invalid length''), s))"
proof (intro conjI impI)
  assume n: "n < 2 ^ 32"
  let ?b = "\<lparr>b_length = Number (Finite (of_nat n)),
             b_promises = [length (promises s) ..< length (promises s) + n],
             b_resolveFunctions =
               map (\<lambda>i. ResolveFn (length (promises s) + i) (length (flags s) + i)) [0..<n]\<rparr>"
  have le: "int n \<le> 4294967295" using n by simp
  have new: "Barrier_new (Number (Finite (of_nat n))) s = (Inr ?b, slots_state n s)"
    using le by (simp add: Barrier_new_def ToLength_nat[OF n] make_slots_eq)
  have ok: "barrier_ok ?b (slots_state n s)"
    by (simp add: barrier_ok_def list_all_iff slots_state_def)
  have fl: "\<And>i. i < n \<Longrightarrow> slot_flag ?b i = length (flags s) + i"
    by (simp add: slot_flag_def)
  have pend: "\<And>i. i < n \<Longrightarrow> state_of (slots_state n s) (length (promises s) + i) = Pending"
    by (simp add: state_of_def slots_state_def nth_append)
  have unset: "\<And>i. i < n \<Longrightarrow> \<not> flag_set (slots_state n s) (length (flags s) + i)"
    by (simp add: flag_set_def slots_state_def nth_append)
  have old: "\<And>p. p < length (promises s) \<Longrightarrow> state_of (slots_state n s) p = state_of s p"
    by (simp add: state_of_def slots_state_def nth_append)
  show "\<exists>b s'. Barrier_new (Number (Finite (of_nat n))) s = (Inr b, s') \<and>
         b_length b = Number (Finite (of_nat n)) \<and>
         b_promises b = [length (promises s) ..< length (promises s) + n] \<and>
         length (b_resolveFunctions b) = n \<and>
         barrier_ok b s' \<and>
         (\<forall>i<n. state_of s' (b_promises b ! i) = Pending \<and>
                \<not> flag_set s' (slot_flag b i) \<and>
                (\<forall>j<n. j \<noteq> i \<longrightarrow> slot_flag b j \<noteq> slot_flag b i)) \<and>
         (\<forall>p<length (promises s). state_of s' p = state_of s p)"
    apply (rule exI[of _ ?b], rule exI[of _ "slots_state n s"])
    using new ok pend unset old by (simp add: fl)
next
  assume "len \<in> {Undefined, Null, Boolean False, Number NaN, Number NegInf} \<or>
    (\<exists>r. r < 0 \<and> len = Number (Finite r))"
  then have "invalid_arg len" by (auto simp: invalid_arg_iff)
  then show "Barrier_new len s = (Inl (RangeError ''Invalid length''), s)"
    by (simp add: Barrier_new_def)
qed

text \<open>
  The claim as stated fails for a length that is not a number: \<open>new Barrier(true)\<close>
  passes the guard and makes a barrier of one slot.
\<close>

theorem Barrier_new_counterexample:
  "fst (Barrier_new (Boolean True) init) =
     Inr \<lparr>b_length = Boolean True, b_promises = [0], b_resolveFunctions = [ResolveFn 0 0]\<rparr>"
  by (simp add: Barrier_new_def invalid_arg_def strict_ne_zero_def less_zero_def ToLength_def
      init_def new_promise_def create_resolving_functions_def numeral_eq_Suc)

theorem Barrier_new_spec_witness:
  "(3::nat) < 2 ^ 32 \<and>
   (\<exists>b s'. Barrier_new (Number (Finite 3)) init = (Inr b, s') \<and>
      b_promises b = [0, 1, 2] \<and> length (b_resolveFunctions b) = 3 \<and>
      state_of s' 1 = Pending) \<and>
   (-1::rat) < 0 \<and>
   Barrier_new (Number (Finite (-1))) init = (Inl (RangeError ''Invalid length''), init)"
proof -
  have a: "(3::nat) < 2 ^ 32" by simp
  have b: "Number (Finite (-1)) \<in> {Undefined, Null, Boolean False, Number NaN, Number NegInf} \<or>
    (\<exists>r. r < 0 \<and> Number (Finite (-1)) = Number (Finite r))" by simp
  from Barrier_new_spec[of 3 init "Number (Finite (-1))"] a b
  obtain b s' where
    1: "Barrier_new (Number (Finite (of_nat 3))) init = (Inr b, s')"
    and 2: "b_promises b = [length (promises init) ..< length (promises init) + 3]"
    and 3: "length (b_resolveFunctions b) = 3"
    and 4: "\<forall>i<3. state_of s' (b_promises b ! i) = Pending \<and>
                \<not> flag_set s' (slot_flag b i) \<and>
                (\<forall>j<3. j \<noteq> i \<longrightarrow> slot_flag b j \<noteq> slot_flag b i)"
    and 5: "Barrier_new (Number (Finite (-1))) init = (Inl (RangeError ''Invalid length''), init)"
    by blast
  have p2: "b_promises b = [0, 1, 2]" using 2 by (simp add: init_def upt_rec)
  have "state_of s' (b_promises b ! 1) = Pending" using 4 by simp
  then have p4: "state_of s' 1 = Pending" by (simp add: p2)
  from 1 have p1: "Barrier_new (Number (Finite 3)) init = (Inr b, s')" by simp
  show ?thesis using p1 p2 3 p4 5 by auto
qed






lemma new_promise_capability_eq:
  "new_promise_capability s = ((length (promises s), length (flags s)), alloc_cap s)"
  by (simp add: new_promise_capability_def new_promise_def create_resolving_functions_def
      alloc_cap_def Let_def)

lemma promise_then_eq:
  "promise_then p onF onR s =
     (length (promises s),
      perform_then p (length (promises s), length (flags s)) onF onR (alloc_cap s))"
  by (simp add: promise_then_def new_promise_capability_eq)

lemma alloc_cap_simps [simp]:
  "promises (alloc_cap s) = promises s @ [\<lparr>pstate = Pending, reactions = []\<rparr>]"
  "flags (alloc_cap s) = flags s @ [False]"
  "aggregates (alloc_cap s) = aggregates s"
  "synchs (alloc_cap s) = synchs s"
  "queue (alloc_cap s) = queue s"
  "observed (alloc_cap s) = observed s"
  by (simp_all add: alloc_cap_def)

lemma enqueue_simps [simp]:
  "promises (enqueue js s) = promises s"
  "flags (enqueue js s) = flags s"
  "aggregates (enqueue js s) = aggregates s"
  "synchs (enqueue js s) = synchs s"
  "queue (enqueue js s) = queue s @ js"
  "observed (enqueue js s) = observed s"
  by (simp_all add: enqueue_def)

subsection \<open>What the operations leave alone\<close>

lemma observed_fulfill [simp]: "observed (fulfill_promise p v s) = observed s"
  by (simp add: fulfill_promise_def)

lemma observed_reject [simp]: "observed (reject_promise p v s) = observed s"
  by (simp add: reject_promise_def)

lemma observed_call_resolve [simp]: "observed (call_resolve p f x s) = observed s"
  by (simp add: call_resolve_def Let_def split: resolution.split)

lemma observed_call_reject [simp]: "observed (call_reject p f x s) = observed s"
  by (simp add: call_reject_def)

lemma observed_perform_then [simp]: "observed (perform_then p c onF onR s) = observed s"
  by (simp add: perform_then_def split: pstate.split)

lemma observed_promise_then [simp]: "observed (snd (promise_then p onF onR s)) = observed s"
  by (simp add: promise_then_eq)

subsection \<open>The queue only grows at its end\<close>

lemma extends_refl [simp]: "extends s s"
  by (simp add: extends_def)

lemma extends_trans: "extends s s1 \<Longrightarrow> extends s1 s2 \<Longrightarrow> extends s s2"
  by (auto simp: extends_def)

lemma extends_updates [simp]:
  "extends s (s1\<lparr>promises := ps\<rparr>) = extends s s1"
  "extends s (s1\<lparr>flags := fl\<rparr>) = extends s s1"
  "extends s (s1\<lparr>aggregates := ag\<rparr>) = extends s s1"
  "extends s (s1\<lparr>synchs := sy\<rparr>) = extends s s1"
  "extends s (s1\<lparr>observed := ob\<rparr>) = extends s s1"
  "extends s (alloc_cap s1) = extends s s1"
  by (simp_all add: extends_def)

lemma extends_enqueue [simp]: "extends s s1 \<Longrightarrow> extends s (enqueue js s1)"
  by (auto simp: extends_def)

lemma extends_fulfill [simp]: "extends s s1 \<Longrightarrow> extends s (fulfill_promise p v s1)"
  by (simp add: fulfill_promise_def)

lemma extends_reject [simp]: "extends s s1 \<Longrightarrow> extends s (reject_promise p v s1)"
  by (simp add: reject_promise_def)

lemma extends_call_resolve [simp]: "extends s s1 \<Longrightarrow> extends s (call_resolve p f x s1)"
  by (simp add: call_resolve_def Let_def split: resolution.split)

lemma extends_call_reject [simp]: "extends s s1 \<Longrightarrow> extends s (call_reject p f x s1)"
  by (simp add: call_reject_def)

lemma extends_perform_then [simp]:
  "extends s s1 \<Longrightarrow> extends s (perform_then p c onF onR s1)"
  by (simp add: perform_then_def split: pstate.split)

lemma extends_promise_then [simp]:
  "extends s s1 \<Longrightarrow> extends s (snd (promise_then p onF onR s1))"
  by (simp add: promise_then_eq)

lemma extends_element_call [simp]: "extends s s1 \<Longrightarrow> extends s (element_call a i v s1)"
  by (simp add: element_call_def Let_def)

lemma extends_synch_delete [simp]: "extends s s1 \<Longrightarrow> extends s (snd (synch_delete y k s1))"
  by (simp add: synch_delete_def split: prod.split)

lemma extends_promise_resolve_value [simp]:
  "extends s s1 \<Longrightarrow> extends s (snd (promise_resolve_value v s1))"
  by (simp add: promise_resolve_value_def new_promise_capability_eq)

lemma extends_finally_call [simp]:
  "extends s s1 \<Longrightarrow> extends s (snd (finally_call y k th s1))"
proof -
  assume a: "extends s s1"
  obtain b s2 where 1: "synch_delete y k s1 = (b, s2)" by (cases "synch_delete y k s1")
  obtain p s3 where 2: "promise_resolve_value (Prim (Boolean b)) s2 = (p, s3)"
    by (cases "promise_resolve_value (Prim (Boolean b)) s2")
  obtain q s4 where 3: "promise_then p (Some th) None s3 = (q, s4)"
    by (cases "promise_then p (Some th) None s3")
  have "extends s s2" using extends_synch_delete[OF a, of y k] 1 by simp
  then have "extends s s3" using extends_promise_resolve_value[of s s2 "Prim (Boolean b)"] 2 by simp
  then have "extends s s4" using extends_promise_then[of s s3 p "Some th" None] 3 by simp
  then show ?thesis by (simp add: finally_call_def 1 2 3)
qed

lemma extends_call_fn [simp]: "extends s s1 \<Longrightarrow> extends s (snd (call_fn h v s1))"
  by (cases h) simp_all

lemma extends_run_job [simp]: "extends s s1 \<Longrightarrow> extends s (run_job j s1)"
proof (cases j)
  case (ReactionJob cap t h arg)
  assume a: "extends s s1"
  show ?thesis
  proof (cases h)
    case None
    then show ?thesis using a by (cases t) (simp_all add: ReactionJob run_job_def)
  next
    case (Some g)
    obtain r s2 where 1: "call_fn g arg s1 = (r, s2)" by (cases "call_fn g arg s1")
    have "extends s s2" using extends_call_fn[OF a, of g arg] 1 by simp
    then show ?thesis by (cases r) (simp_all add: ReactionJob run_job_def Some 1)
  qed
next
  case (ResolveThenableJob p q)
  assume "extends s s1"
  then show ?thesis
    by (simp add: ResolveThenableJob run_job_def create_resolving_functions_def Let_def)
qed







lemma state_of_alloc_cap [simp]:
  "state_of (alloc_cap s) p = state_of s p"
  by (auto simp: state_of_def nth_append)

lemma flag_set_alloc_cap [simp]:
  "flag_set (alloc_cap s) f = flag_set s f"
  by (auto simp: flag_set_def nth_append)






lemma flags_fulfill [simp]: "flags (fulfill_promise p v s) = flags s"
  by (simp add: fulfill_promise_def)

lemma flags_reject [simp]: "flags (reject_promise p v s) = flags s"
  by (simp add: reject_promise_def)



lemma call_reject_set: "flag_set s f \<Longrightarrow> call_reject p f x s = s"
  by (simp add: call_reject_def)





lemma caps_from_Nil [simp]: "caps_from s [] = []"
  by (simp add: caps_from_def)


lemma length_caps_from [simp]: "length (caps_from s ts) = length ts"
  by (simp add: caps_from_def)





















subsection \<open>Effects of the operations on the parts of the state\<close>

lemma reactions_of_alloc_cap [simp]: "reactions_of (alloc_cap s) p = reactions_of s p"
  by (auto simp: reactions_of_def nth_append)

lemma reactions_of_enqueue [simp]: "reactions_of (enqueue js s) p = reactions_of s p"
  by (simp add: reactions_of_def)

lemma reactions_of_updates [simp]:
  "reactions_of (s\<lparr>flags := fl\<rparr>) p = reactions_of s p"
  "reactions_of (s\<lparr>aggregates := ag\<rparr>) p = reactions_of s p"
  "reactions_of (s\<lparr>synchs := sy\<rparr>) p = reactions_of s p"
  "reactions_of (s\<lparr>queue := qu\<rparr>) p = reactions_of s p"
  "reactions_of (s\<lparr>observed := ob\<rparr>) p = reactions_of s p"
  by (simp_all add: reactions_of_def)

lemma state_of_updates [simp]:
  "state_of (s\<lparr>aggregates := ag\<rparr>) p = state_of s p"
  "state_of (s\<lparr>synchs := sy\<rparr>) p = state_of s p"
  "state_of (s\<lparr>queue := qu\<rparr>) p = state_of s p"
  "state_of (s\<lparr>observed := ob\<rparr>) p = state_of s p"
  by (simp_all add: state_of_def)

lemma flag_set_updates [simp]:
  "flag_set (s\<lparr>promises := pr\<rparr>) f = flag_set s f"
  "flag_set (s\<lparr>aggregates := ag\<rparr>) f = flag_set s f"
  "flag_set (s\<lparr>synchs := sy\<rparr>) f = flag_set s f"
  "flag_set (s\<lparr>queue := qu\<rparr>) f = flag_set s f"
  "flag_set (s\<lparr>observed := ob\<rparr>) f = flag_set s f"
  "flag_set (enqueue js s) f = flag_set s f"
  by (simp_all add: flag_set_def)

lemma flag_set_set:
  "flag_set (s\<lparr>flags := (flags s)[f := True]\<rparr>) g = (flag_set s g \<or> (g = f \<and> f < length (flags s)))"
  by (cases "g = f") (auto simp: flag_set_def)

lemma fulfill_promise_eq:
  "fulfill_promise p v s =
     (if can_settle s p then
        enqueue (settle_jobs s p Fulfill v)
          (s\<lparr>promises := (promises s)[p := \<lparr>pstate = Fulfilled v, reactions = []\<rparr>]\<rparr>)
      else s)"
  by (simp add: fulfill_promise_def can_settle_def settle_jobs_def state_of_def reactions_of_def
      reaction_job_def[abs_def])

lemma reject_promise_eq:
  "reject_promise p v s =
     (if can_settle s p then
        enqueue (settle_jobs s p Reject v)
          (s\<lparr>promises := (promises s)[p := \<lparr>pstate = Rejected v, reactions = []\<rparr>]\<rparr>)
      else s)"
  by (simp add: reject_promise_def can_settle_def settle_jobs_def state_of_def reactions_of_def
      reaction_job_def[abs_def])

lemma settle_simps:
  "fulfill_promise p v s = settle p Fulfill v s"
  "reject_promise p v s = settle p Reject v s"
  by (simp_all add: settle_def)

lemma outcome_simps [simp]:
  "outcome Fulfill v = Fulfilled v" "outcome Reject v = Rejected v"
  "outcome ty v \<noteq> Pending" "Pending \<noteq> outcome ty v"
  by (simp_all add: outcome_def split: rtype.split)

lemma settle_eq:
  "settle p ty v s =
     (if can_settle s p then
        enqueue (settle_jobs s p ty v)
          (s\<lparr>promises := (promises s)[p := \<lparr>pstate = outcome ty v, reactions = []\<rparr>]\<rparr>)
      else s)"
  unfolding settle_def
  by (cases ty) (simp_all only: fulfill_promise_eq reject_promise_eq rtype.case outcome_simps)

lemma settle_effects:
  "state_of (settle p ty v s) q = (if q = p \<and> can_settle s p then outcome ty v else state_of s q)"
  "reactions_of (settle p ty v s) q = (if q = p \<and> can_settle s p then [] else reactions_of s q)"
  "queue (settle p ty v s) = queue s @ settle_jobs s p ty v"
  "flags (settle p ty v s) = flags s"
  "aggregates (settle p ty v s) = aggregates s"
  "synchs (settle p ty v s) = synchs s"
  "observed (settle p ty v s) = observed s"
  "length (promises (settle p ty v s)) = length (promises s)"
  "flag_set (settle p ty v s) f = flag_set s f"
  by (auto simp: settle_eq state_of_def reactions_of_def can_settle_def settle_jobs_def
      nth_list_update flag_set_def)

lemma perform_then_effects:
  "state_of (perform_then p c F R s) q = state_of s q"
  "reactions_of (perform_then p c F R s) q =
     (if q = p \<and> can_settle s p
      then reactions_of s p @ [\<lparr>capability = c, on_fulfilled = F, on_rejected = R\<rparr>]
      else reactions_of s q)"
  "queue (perform_then p c F R s) =
     queue s @ (case state_of s p of Pending \<Rightarrow> []
                | Fulfilled v \<Rightarrow> [ReactionJob c Fulfill F v]
                | Rejected v \<Rightarrow> [ReactionJob c Reject R v])"
  "flags (perform_then p c F R s) = flags s"
  "aggregates (perform_then p c F R s) = aggregates s"
  "synchs (perform_then p c F R s) = synchs s"
  "observed (perform_then p c F R s) = observed s"
  "length (promises (perform_then p c F R s)) = length (promises s)"
  "flag_set (perform_then p c F R s) f = flag_set s f"
  by (auto simp: perform_then_def state_of_def reactions_of_def can_settle_def
      nth_list_update flag_set_def split: pstate.splits)

lemma call_resolve_eq:
  "call_resolve p f x s =
     (if flag_set s f then s
      else case x of
             Plain v \<Rightarrow> settle p Fulfill v (s\<lparr>flags := (flags s)[f := True]\<rparr>)
           | Thenable q \<Rightarrow>
               if q = p then
                 settle p Reject (Err TypeError)
                   (s\<lparr>flags := (flags s)[f := True]\<rparr>)
               else enqueue [ResolveThenableJob p q] (s\<lparr>flags := (flags s)[f := True]\<rparr>))"
  by (simp add: call_resolve_def Let_def settle_simps split: resolution.split)

lemma call_reject_eq:
  "call_reject p f v s =
     (if flag_set s f then s else settle p Reject v (s\<lparr>flags := (flags s)[f := True]\<rparr>))"
  by (simp add: call_reject_def settle_simps)

lemma can_settle_updates [simp]:
  "can_settle (s\<lparr>flags := fl\<rparr>) p = can_settle s p"
  "can_settle (s\<lparr>aggregates := ag\<rparr>) p = can_settle s p"
  "can_settle (s\<lparr>synchs := sy\<rparr>) p = can_settle s p"
  "can_settle (s\<lparr>queue := qu\<rparr>) p = can_settle s p"
  "can_settle (s\<lparr>observed := ob\<rparr>) p = can_settle s p"
  "can_settle (enqueue js s) p = can_settle s p"
  by (simp_all add: can_settle_def)

lemma settle_jobs_updates [simp]:
  "settle_jobs (s\<lparr>flags := fl\<rparr>) p = settle_jobs s p"
  "settle_jobs (s\<lparr>aggregates := ag\<rparr>) p = settle_jobs s p"
  "settle_jobs (s\<lparr>synchs := sy\<rparr>) p = settle_jobs s p"
  "settle_jobs (s\<lparr>queue := qu\<rparr>) p = settle_jobs s p"
  "settle_jobs (s\<lparr>observed := ob\<rparr>) p = settle_jobs s p"
  "settle_jobs (enqueue js s) p = settle_jobs s p"
  by (auto simp: settle_jobs_def fun_eq_iff)

lemma can_settle_alloc_cap [simp]:
  "can_settle (alloc_cap s) p = (can_settle s p \<or> p = length (promises s))"
  by (auto simp: can_settle_def state_of_def nth_append)

lemma settle_jobs_alloc_cap [simp]: "settle_jobs (alloc_cap s) p = settle_jobs s p"
  by (auto simp: settle_jobs_def fun_eq_iff reactions_of_def nth_append)

lemma outcome_inj [simp]: "(outcome ty v = outcome ty' v') = (ty = ty' \<and> v = v')"
  by (cases ty; cases ty') (simp_all add: outcome_def)

lemma foreign_reaction_job:
  "foreign_reaction r fr a x \<Longrightarrow> foreign_job r fr a (reaction_job ty v x)"
  by (cases ty) (simp_all add: foreign_reaction_def reaction_job_def)

lemma grows_refl [simp]: "grows s s"
  by (simp add: grows_def)

lemma grows_trans: "grows s s1 \<Longrightarrow> grows s1 s2 \<Longrightarrow> grows s s2"
  by (auto simp: grows_def)

lemma frame_refl [simp]: "frame r fr a s s"
  by (auto simp: frame_def can_settle_def)

lemma can_settle_back:
  assumes "\<forall>q. state_of s q \<noteq> Pending \<longrightarrow> state_of s1 q = state_of s q"
    and "can_settle s1 q" and "q < length (promises s)"
  shows "can_settle s q"
  using assms by (auto simp: can_settle_def)

lemma reactions_of_range: "x \<in> set (reactions_of s q) \<Longrightarrow> q < length (promises s)"
  by (auto simp: reactions_of_def split: if_splits)

lemma frame_trans:
  assumes 1: "frame r fr a s s1" and 2: "frame r fr a s1 s2"
  shows "frame r fr a s s2"
proof -
  from 1 obtain n1 where n1: "queue s1 = queue s @ n1"
    and j1: "\<forall>j \<in> set n1. foreign_job r fr a j \<or>
            (\<exists>q ty v x. x \<in> set (reactions_of s q) \<and> can_settle s q \<and>
               state_of s1 q = outcome ty v \<and> j = reaction_job ty v x)"
    and c1: "\<forall>q ty v. can_settle s q \<and> state_of s1 q = outcome ty v \<longrightarrow>
            (\<forall>x \<in> set (reactions_of s q). reaction_job ty v x \<in> set n1)"
    unfolding frame_def by blast
  from 2 obtain n2 where n2: "queue s2 = queue s1 @ n2"
    and j2: "\<forall>j \<in> set n2. foreign_job r fr a j \<or>
            (\<exists>q ty v x. x \<in> set (reactions_of s1 q) \<and> can_settle s1 q \<and>
               state_of s2 q = outcome ty v \<and> j = reaction_job ty v x)"
    and c2: "\<forall>q ty v. can_settle s1 q \<and> state_of s2 q = outcome ty v \<longrightarrow>
            (\<forall>x \<in> set (reactions_of s1 q). reaction_job ty v x \<in> set n2)"
    unfolding frame_def by blast
  have g1: "grows s s1" and g2: "grows s1 s2" using 1 2 by (simp_all add: frame_def)
  have o1: "\<forall>q. state_of s q \<noteq> Pending \<longrightarrow> state_of s1 q = state_of s q"
    and o2: "\<forall>q. state_of s1 q \<noteq> Pending \<longrightarrow> state_of s2 q = state_of s1 q"
    using 1 2 by (simp_all add: frame_def)
  have r1: "\<forall>q. \<forall>x \<in> set (reactions_of s1 q). x \<in> set (reactions_of s q) \<or> foreign_reaction r fr a x"
    and r2: "\<forall>q. \<forall>x \<in> set (reactions_of s2 q). x \<in> set (reactions_of s1 q) \<or> foreign_reaction r fr a x"
    using 1 2 by (simp_all add: frame_def)
  have k1: "\<forall>q. state_of s1 q = Pending \<longrightarrow> set (reactions_of s q) \<subseteq> set (reactions_of s1 q)"
    and k2: "\<forall>q. state_of s2 q = Pending \<longrightarrow> set (reactions_of s1 q) \<subseteq> set (reactions_of s2 q)"
    using 1 2 by (simp_all add: frame_def)
  have A: "grows s s2" using g1 g2 by (rule grows_trans)
  have Q: "queue s2 = queue s @ (n1 @ n2)" using n1 n2 by simp
  have J: "foreign_job r fr a j \<or>
            (\<exists>q ty v x. x \<in> set (reactions_of s q) \<and> can_settle s q \<and>
               state_of s2 q = outcome ty v \<and> j = reaction_job ty v x)"
    if "j \<in> set (n1 @ n2)" for j
  proof (cases "j \<in> set n1")
    case True
    with j1 consider "foreign_job r fr a j"
      | q ty v x where "x \<in> set (reactions_of s q)" "can_settle s q"
          "state_of s1 q = outcome ty v" "j = reaction_job ty v x" by blast
    then show ?thesis
    proof cases
      case 1 then show ?thesis by simp
    next
      case 2
      then have "state_of s2 q = outcome ty v" using o2 by simp
      with 2 show ?thesis by blast
    qed
  next
    case False
    with that have "j \<in> set n2" by simp
    with j2 consider "foreign_job r fr a j"
      | q ty v x where "x \<in> set (reactions_of s1 q)" "can_settle s1 q"
          "state_of s2 q = outcome ty v" "j = reaction_job ty v x" by blast
    then show ?thesis
    proof cases
      case 1 then show ?thesis by simp
    next
      case 2
      show ?thesis
      proof (cases "x \<in> set (reactions_of s q)")
        case True
        then have "q < length (promises s)" by (rule reactions_of_range)
        with o1 2(2) have "can_settle s q" by (rule can_settle_back)
        with True 2 show ?thesis by blast
      next
        case False
        with r1 2(1) have "foreign_reaction r fr a x" by blast
        then show ?thesis using 2(4) by (simp add: foreign_reaction_job)
      qed
    qed
  qed
  have C: "reaction_job ty v x \<in> set (n1 @ n2)"
    if "can_settle s q" "state_of s2 q = outcome ty v" "x \<in> set (reactions_of s q)" for q ty v x
  proof (cases "state_of s1 q = Pending")
    case True
    have "q < length (promises s1)" using that(1) g1 by (simp add: can_settle_def grows_def)
    with True have "can_settle s1 q" by (simp add: can_settle_def)
    moreover have "x \<in> set (reactions_of s1 q)" using k1 True that(3) by blast
    ultimately show ?thesis using c2 that(2) by auto
  next
    case False
    with o2 that(2) have "state_of s1 q = outcome ty v" by simp
    with c1 that show ?thesis by auto
  qed
  have O: "\<forall>q. state_of s q \<noteq> Pending \<longrightarrow> state_of s2 q = state_of s q"
    using o1 o2 by simp
  have R: "\<forall>q. \<forall>x \<in> set (reactions_of s2 q). x \<in> set (reactions_of s q) \<or> foreign_reaction r fr a x"
    using r1 r2 by blast
  have K: "\<forall>q. state_of s2 q = Pending \<longrightarrow> set (reactions_of s q) \<subseteq> set (reactions_of s2 q)"
  proof (intro allI impI)
    fix q assume p2: "state_of s2 q = Pending"
    then have "state_of s1 q = Pending" using o2 by (cases "state_of s1 q") auto
    with k1 k2 p2 show "set (reactions_of s q) \<subseteq> set (reactions_of s2 q)" by blast
  qed
  have F: "flag_set s2 fr = flag_set s fr" "state_of s2 r = state_of s r"
    using 1 2 by (simp_all add: frame_def)
  have G1: "\<forall>b. a = Some b \<and> b < length (aggregates s) \<longrightarrow> aggregates s2 ! b = aggregates s ! b"
    using 1 2 g1 by (auto simp: frame_def grows_def)
  have G2: "\<forall>b < length (aggregates s). agg_cap (aggregates s2 ! b) = agg_cap (aggregates s ! b)"
    using 1 2 g1 by (auto simp: frame_def grows_def)
  have G3: "\<forall>b. length (aggregates s) \<le> b \<and> b < length (aggregates s2) \<and> Some b \<noteq> a \<longrightarrow>
           foreign_cap r fr (agg_cap (aggregates s2 ! b))"
  proof (intro allI impI)
    fix b assume b: "length (aggregates s) \<le> b \<and> b < length (aggregates s2) \<and> Some b \<noteq> a"
    show "foreign_cap r fr (agg_cap (aggregates s2 ! b))"
    proof (cases "b < length (aggregates s1)")
      case True
      then have "agg_cap (aggregates s2 ! b) = agg_cap (aggregates s1 ! b)"
        using 2 by (simp add: frame_def)
      moreover have "foreign_cap r fr (agg_cap (aggregates s1 ! b))"
        using 1 b True by (simp add: frame_def)
      ultimately show ?thesis by simp
    next
      case False
      then show ?thesis using 2 b by (simp add: frame_def)
    qed
  qed
  show ?thesis
    unfolding frame_def
    using A Q J C O R K F G1 G2 G3 by blast
qed

subsection \<open>The stores only grow\<close>

lemma grows_updates [simp]:
  "grows s (s1\<lparr>queue := qu\<rparr>) = grows s s1"
  "grows s (s1\<lparr>synchs := sy\<rparr>) = grows s s1"
  "grows s (s1\<lparr>observed := ob\<rparr>) = grows s s1"
  "grows s (enqueue js s1) = grows s s1"
  by (simp_all add: grows_def)

lemma grows_list_updates [simp]:
  "grows s (s1\<lparr>promises := (promises s1)[p := x]\<rparr>) = grows s s1"
  "grows s (s1\<lparr>flags := (flags s1)[f := b]\<rparr>) = grows s s1"
  "grows s (s1\<lparr>aggregates := (aggregates s1)[k := g]\<rparr>) = grows s s1"
  by (simp_all add: grows_def)

lemma grows_appends [simp]:
  "grows s s1 \<Longrightarrow> grows s (s1\<lparr>promises := promises s1 @ ps\<rparr>)"
  "grows s s1 \<Longrightarrow> grows s (s1\<lparr>flags := flags s1 @ fs\<rparr>)"
  "grows s s1 \<Longrightarrow> grows s (s1\<lparr>aggregates := aggregates s1 @ gs\<rparr>)"
  "grows s s1 \<Longrightarrow> grows s (alloc_cap s1)"
  by (simp_all add: grows_def)

lemma grows_settle [simp]: "grows s s1 \<Longrightarrow> grows s (settle p ty v s1)"
  by (simp add: settle_eq)

lemma grows_call_resolve [simp]: "grows s s1 \<Longrightarrow> grows s (call_resolve p f x s1)"
  by (simp add: call_resolve_eq split: resolution.split)

lemma grows_call_reject [simp]: "grows s s1 \<Longrightarrow> grows s (call_reject p f x s1)"
  by (simp add: call_reject_eq)

lemma grows_perform_then [simp]: "grows s s1 \<Longrightarrow> grows s (perform_then p c F R s1)"
  by (simp add: perform_then_def split: pstate.split)

lemma grows_promise_then [simp]: "grows s s1 \<Longrightarrow> grows s (snd (promise_then p F R s1))"
  by (simp add: promise_then_eq)

lemma grows_element_call [simp]: "grows s s1 \<Longrightarrow> grows s (element_call b i v s1)"
  by (simp add: element_call_def Let_def)

lemma grows_synch_delete [simp]: "grows s s1 \<Longrightarrow> grows s (snd (synch_delete y k s1))"
  by (simp add: synch_delete_def split: prod.split)

lemma grows_promise_resolve_value [simp]:
  "grows s s1 \<Longrightarrow> grows s (snd (promise_resolve_value v s1))"
  by (simp add: promise_resolve_value_def new_promise_capability_eq)

lemma grows_finally_call [simp]:
  "grows s s1 \<Longrightarrow> grows s (snd (finally_call y k th s1))"
  by (simp add: finally_call_def split: prod.split)
     (metis grows_synch_delete grows_promise_resolve_value grows_promise_then snd_conv)

lemma grows_call_fn [simp]: "grows s s1 \<Longrightarrow> grows s (snd (call_fn h v s1))"
  by (cases h) simp_all

lemma grows_run_job [simp]: "grows s s1 \<Longrightarrow> grows s (run_job j s1)"
proof (cases j)
  case (ReactionJob cap t h arg)
  assume a: "grows s s1"
  show ?thesis
  proof (cases h)
    case None
    then show ?thesis using a by (cases t) (simp_all add: ReactionJob run_job_def)
  next
    case (Some g)
    obtain x s2 where 1: "call_fn g arg s1 = (x, s2)" by (cases "call_fn g arg s1")
    have "grows s s2" using grows_call_fn[OF a, of g arg] 1 by simp
    then show ?thesis by (cases x) (simp_all add: ReactionJob run_job_def Some 1)
  qed
next
  case (ResolveThenableJob p q)
  assume "grows s s1"
  then show ?thesis
    by (simp add: ResolveThenableJob run_job_def create_resolving_functions_def Let_def)
qed

lemma clear_split:
  assumes "clear r fr a s s2" and "grows s s1" and "grows s1 s2"
  shows "clear r fr a s s1" and "clear r fr a s1 s2"
  using assms by (auto simp: clear_def grows_def split: option.splits)

lemma clear_fresh:
  assumes "clear r fr a s s'"
  shows "length (promises s) < length (promises s') \<Longrightarrow> length (promises s) \<noteq> r"
    and "length (flags s) < length (flags s') \<Longrightarrow> length (flags s) \<noteq> fr"
    and "length (aggregates s) < length (aggregates s') \<Longrightarrow> Some (length (aggregates s)) \<noteq> a"
  using assms by (auto simp: clear_def split: option.splits)

subsection \<open>Foreign steps\<close>

lemma frame_alloc_cap [simp]: "frame r fr a s (alloc_cap s)"
  by (auto simp: frame_def can_settle_def grows_def nth_append)

lemma frame_set_flag: "f \<noteq> fr \<Longrightarrow> frame r fr a s (s\<lparr>flags := (flags s)[f := True]\<rparr>)"
  by (auto simp: frame_def can_settle_def grows_def flag_set_set)

lemma frame_settle: "p \<noteq> r \<Longrightarrow> frame r fr a s (settle p ty v s)"
  unfolding frame_def
  by (auto simp: settle_effects settle_jobs_def can_settle_def grows_def)

lemma frame_enqueue:
  "\<forall>j \<in> set js. foreign_job r fr a j \<Longrightarrow> frame r fr a s (enqueue js s)"
  by (auto simp: frame_def can_settle_def grows_def)

lemma frame_perform_then:
  "foreign_cap r fr c \<Longrightarrow> foreign_opt r fr a F \<Longrightarrow> foreign_opt r fr a R \<Longrightarrow>
   frame r fr a s (perform_then p c F R s)"
  unfolding frame_def
  by (auto simp: perform_then_effects can_settle_def grows_def foreign_reaction_def
      split: pstate.splits)

lemma frame_synchs [simp]: "frame r fr a s (s\<lparr>synchs := sy\<rparr>)"
  by (auto simp: frame_def can_settle_def grows_def)

lemma frame_observed [simp]: "frame r fr a s (s\<lparr>observed := ob\<rparr>)"
  by (auto simp: frame_def can_settle_def grows_def)

lemma frame_aggregate_update:
  assumes "Some b \<noteq> a" "agg_cap g = agg_cap (aggregates s ! b)"
  shows "frame r fr a s (s\<lparr>aggregates := (aggregates s)[b := g]\<rparr>)"
proof -
  have 1: "agg_cap ((aggregates s)[b := g] ! k) = agg_cap (aggregates s ! k)"
    if "k < length (aggregates s)" for k
    using that assms(2) by (cases "k = b") simp_all
  have 2: "(aggregates s)[b := g] ! k = aggregates s ! k" if "a = Some k" for k
    using that assms(1) by auto
  show ?thesis
    using 1 2 by (auto simp: frame_def can_settle_def grows_def)
qed

lemma frame_call_resolve:
  assumes "p \<noteq> r" "f \<noteq> fr"
  shows "frame r fr a s (call_resolve p f x s)"
proof -
  let ?s1 = "s\<lparr>flags := (flags s)[f := True]\<rparr>"
  have 1: "frame r fr a s ?s1" using assms(2) by (rule frame_set_flag)
  have 2: "frame r fr a ?s1 (settle p ty v ?s1)" for ty v using assms(1) by (rule frame_settle)
  have 3: "frame r fr a ?s1 (enqueue [ResolveThenableJob p q] ?s1)" for q
    using assms(1) by (intro frame_enqueue) simp
  show ?thesis
    unfolding call_resolve_eq
    using frame_trans[OF 1 2] frame_trans[OF 1 3] by (auto split: resolution.split)
qed

lemma frame_resolve_with_wrapper:
  assumes "p \<noteq> r" "f \<noteq> fr"
  shows "frame r fr a s (resolve_with_wrapper p f s)"
proof -
  let ?s1 = "s\<lparr>flags := (flags s)[f := True]\<rparr>"
  have 1: "frame r fr a s ?s1" using assms(2) by (rule frame_set_flag)
  have 3: "frame r fr a ?s1 (enqueue [ResolveThenableJob p p] ?s1)"
    using assms(1) by (intro frame_enqueue) simp
  show ?thesis
    unfolding resolve_with_wrapper_def using frame_trans[OF 1 3] by auto
qed

lemma frame_resolve_with_own_wrapper:
  "foreign_fn r fr a h \<Longrightarrow> frame r fr a s (resolve_with_own_wrapper h s)"
  by (cases h) (simp_all add: frame_resolve_with_wrapper)

lemma grows_resolve_with_own_wrapper [simp]:
  "grows s s1 \<Longrightarrow> grows s (resolve_with_own_wrapper h s1)"
  by (cases h) (simp_all add: resolve_with_wrapper_def grows_def)

lemma frame_call_reject:
  assumes "p \<noteq> r" "f \<noteq> fr"
  shows "frame r fr a s (call_reject p f x s)"
proof -
  let ?s1 = "s\<lparr>flags := (flags s)[f := True]\<rparr>"
  have 1: "frame r fr a s ?s1" using assms(2) by (rule frame_set_flag)
  have 2: "frame r fr a ?s1 (settle p ty v ?s1)" for ty v using assms(1) by (rule frame_settle)
  show ?thesis
    unfolding call_reject_eq using frame_trans[OF 1 2] by auto
qed

lemma frame_promise_then:
  assumes "foreign_opt r fr a F" "foreign_opt r fr a R"
    and "clear r fr a s (snd (promise_then p F R s))"
  shows "frame r fr a s (snd (promise_then p F R s))"
proof -
  have "length (promises s) \<noteq> r" "length (flags s) \<noteq> fr"
    using clear_fresh(1,2)[OF assms(3)] by (simp_all add: promise_then_eq perform_then_effects)
  then have c: "foreign_cap r fr (length (promises s), length (flags s))"
    by (simp add: foreign_cap_def)
  show ?thesis
    unfolding promise_then_eq snd_conv
    by (rule frame_trans[OF frame_alloc_cap frame_perform_then[OF c assms(1,2)]])
qed

lemma caps_foreign_frame:
  "caps_foreign r fr a s \<Longrightarrow> frame r fr a s s' \<Longrightarrow> caps_foreign r fr a s'"
  unfolding caps_foreign_def frame_def
  by (metis not_le_imp_less)

lemma promise_resolve_value_eq:
  "promise_resolve_value v s =
     (length (promises s),
      call_resolve (length (promises s)) (length (flags s)) (Plain v) (alloc_cap s))"
  by (simp add: promise_resolve_value_def new_promise_capability_eq)

lemma frame_promise_resolve_value:
  assumes "clear r fr a s (snd (promise_resolve_value v s))"
  shows "frame r fr a s (snd (promise_resolve_value v s))"
proof -
  have "length (promises s) \<noteq> r" "length (flags s) \<noteq> fr"
    using clear_fresh(1,2)[OF assms]
    by (simp_all add: promise_resolve_value_eq call_resolve_eq settle_eq)
  then have "frame r fr a (alloc_cap s)
               (call_resolve (length (promises s)) (length (flags s)) (Plain v) (alloc_cap s))"
    by (rule frame_call_resolve)
  then show ?thesis
    unfolding promise_resolve_value_eq snd_conv
    by (rule frame_trans[OF frame_alloc_cap])
qed

lemma frame_element_call:
  assumes "Some b \<noteq> a" "caps_foreign r fr a s"
  shows "frame r fr a s (element_call b i v s)"
proof (cases "b < length (aggregates s)")
  case False
  then show ?thesis by (simp add: element_call_def)
next
  case True
  let ?g = "aggregates s ! b"
  have 1: "frame r fr a s (s\<lparr>aggregates := (aggregates s)[b := g1]\<rparr>)"
    if "agg_cap g1 = agg_cap ?g" for g1
    using assms(1) that by (rule frame_aggregate_update)
  have "foreign_cap r fr (agg_cap ?g)" using assms True by (simp add: caps_foreign_def)
  then have "frame r fr a s1 (call_resolve (fst (agg_cap ?g)) (snd (agg_cap ?g)) x s1)" for x s1
    by (intro frame_call_resolve) (simp_all add: foreign_cap_def)
  from frame_trans[OF 1 this]
  have 2: "frame r fr a s (call_resolve (fst (agg_cap ?g)) (snd (agg_cap ?g)) x
              (s\<lparr>aggregates := (aggregates s)[b := g1]\<rparr>))"
    if "agg_cap g1 = agg_cap ?g" for g1 x
    using that by simp
  show ?thesis
    by (simp add: element_call_def Let_def 1 2)
qed

lemma frame_synch_delete [simp]: "frame r fr a s (snd (synch_delete y k s))"
  by (simp add: synch_delete_def split: prod.split)

lemma frame_finally_call:
  assumes "foreign_fn r fr a th" and "clear r fr a s (snd (finally_call y k th s))"
  shows "frame r fr a s (snd (finally_call y k th s))"
proof -
  obtain b s1 where 1: "synch_delete y k s = (b, s1)" by (cases "synch_delete y k s")
  obtain p s2 where 2: "promise_resolve_value (Prim (Boolean b)) s1 = (p, s2)"
    by (cases "promise_resolve_value (Prim (Boolean b)) s1")
  obtain q s3 where 3: "promise_then p (Some th) None s2 = (q, s3)"
    by (cases "promise_then p (Some th) None s2")
  have e: "snd (finally_call y k th s) = s3" by (simp add: finally_call_def 1 2 3)
  have s1: "s1 = snd (synch_delete y k s)" and s2: "s2 = snd (promise_resolve_value (Prim (Boolean b)) s1)"
    and s3: "s3 = snd (promise_then p (Some th) None s2)"
    using 1 2 3 by simp_all
  have g1: "grows s s1" unfolding s1 by simp
  have g2: "grows s1 s2" unfolding s2 by simp
  have g3: "grows s2 s3" unfolding s3 by simp
  have c: "clear r fr a s s3" using assms(2) e by simp
  note c12 = clear_split[OF c grows_trans[OF g1 g2] g3]
  note c1 = clear_split[OF c12(1) g1 g2]
  have f1: "frame r fr a s s1" unfolding s1 by simp
  have f2: "frame r fr a s1 s2" unfolding s2
    by (rule frame_promise_resolve_value) (use c1(2) s2 in simp)
  have f3: "frame r fr a s2 s3" unfolding s3
    by (rule frame_promise_then) (use assms(1) c12(2) s3 in \<open>simp_all add: foreign_opt_def\<close>)
  show ?thesis unfolding e by (rule frame_trans[OF frame_trans[OF f1 f2] f3])
qed

lemma frame_call_fn:
  assumes "foreign_fn r fr a h" and "caps_foreign r fr a s"
    and "clear r fr a s (snd (call_fn h v s))"
  shows "frame r fr a s (snd (call_fn h v s))"
proof (cases h)
  case (ResolveFn p f)
  then show ?thesis using assms(1) by (simp add: frame_call_resolve)
next
  case (RejectFn p f)
  then show ?thesis using assms(1) by (simp add: frame_call_reject)
next
  case (AllResolveElement b i)
  then show ?thesis using assms(1,2) by (simp add: frame_element_call)
next
  case (SettledResolveElement b i)
  then show ?thesis using assms(1,2) by (simp add: frame_element_call)
next
  case (SettledRejectElement b i)
  then show ?thesis using assms(1,2) by (simp add: frame_element_call)
next
  case (ThenFinally y k)
  then show ?thesis using assms(3) by (simp add: frame_finally_call)
next
  case (CatchFinally y k)
  then show ?thesis using assms(3) by (simp add: frame_finally_call)
qed simp_all

text \<open>What a foreign reaction job hands to the capability is again foreign.\<close>

lemma frame_run_job:
  assumes "foreign_job r fr a j" and "caps_foreign r fr a s"
    and "clear r fr a s (run_job j s)"
  shows "frame r fr a s (run_job j s)"
proof (cases j)
  case (ReactionJob c ty h v)
  then have c: "fst c \<noteq> r" "snd c \<noteq> fr" and h: "foreign_opt r fr a h"
    using assms(1) by (simp_all add: foreign_cap_def)
  obtain x s1 where 1: "(case h of None \<Rightarrow> (case ty of Fulfill \<Rightarrow> (Return (Plain v), s)
                                       | Reject \<Rightarrow> (Throw v, s))
                  | Some g \<Rightarrow> call_fn g v s) = (x, s1)"
    by (cases "(case h of None \<Rightarrow> (case ty of Fulfill \<Rightarrow> (Return (Plain v), s)
                                       | Reject \<Rightarrow> (Throw v, s))
                  | Some g \<Rightarrow> call_fn g v s)")
  let ?s2 = "case x of Return y \<Rightarrow> call_resolve (fst c) (snd c) y s1
                     | Throw e \<Rightarrow> call_reject (fst c) (snd c) e s1"
  have e: "run_job j s = ?s2" by (simp add: ReactionJob run_job_def 1)
  have f2: "frame r fr a s1 ?s2"
    using c by (cases x) (simp_all add: frame_call_resolve frame_call_reject)
  have g2: "grows s1 ?s2" by (cases x) simp_all
  have f1: "frame r fr a s s1"
  proof (cases h)
    case None
    with 1 show ?thesis by (cases ty) auto
  next
    case (Some g)
    with 1 have s1: "s1 = snd (call_fn g v s)" by simp
    have g1: "grows s s1" unfolding s1 by simp
    have "clear r fr a s s1" using clear_split(1)[OF _ g1 g2] assms(3) e by simp
    then show ?thesis
      unfolding s1 using h Some assms(2) by (intro frame_call_fn) (simp_all add: foreign_opt_def)
  qed
  show ?thesis unfolding e by (rule frame_trans[OF f1 f2])
next
  case (ResolveThenableJob p q)
  then have p: "p \<noteq> r" using assms(1) by simp
  let ?s1 = "s\<lparr>flags := flags s @ [False]\<rparr>"
  let ?f = "length (flags s)"
  let ?s2 = "snd (promise_then q (Some (ResolveFn p ?f)) (Some (RejectFn p ?f)) ?s1)"
  have e: "run_job j s = ?s2"
    by (simp add: ResolveThenableJob run_job_def create_resolving_functions_def Let_def)
  have g1: "grows s ?s1" by simp
  have g2: "grows ?s1 ?s2" by simp
  have c: "clear r fr a s ?s2" using assms(3) e by simp
  note cs = clear_split[OF c g1 g2]
  have "?f \<noteq> fr" using clear_fresh(2)[OF cs(1)] by simp
  then have h: "foreign_opt r fr a (Some (ResolveFn p ?f))" "foreign_opt r fr a (Some (RejectFn p ?f))"
    using p by (simp_all add: foreign_opt_def)
  have f1: "frame r fr a s ?s1"
    by (auto simp: frame_def can_settle_def grows_def flag_set_def nth_append)
  have f2: "frame r fr a ?s1 ?s2" using h cs(2) by (rule frame_promise_then)
  show ?thesis unfolding e by (rule frame_trans[OF f1 f2])
qed

subsection \<open>The calls of the library as foreign steps\<close>

lemma user_fn_foreign: "user_fn h \<Longrightarrow> foreign_opt r fr a h"
  by (cases h rule: user_fn.cases) (simp_all add: foreign_opt_def)

lemma call_resolving_plain: "call_resolving h (Plain v) s = snd (call_fn h v s)"
  by (cases h) simp_all

lemma call_resolving_thenable:
  "call_resolving h (Thenable q) s =
     (case h of ResolveFn p f \<Rightarrow> call_resolve p f (Thenable q) s | _ \<Rightarrow> s)"
  by (cases h) simp_all

lemma grows_call_resolving [simp]: "grows s s1 \<Longrightarrow> grows s (call_resolving h x s1)"
  by (cases x) (simp_all add: call_resolving_plain call_resolving_thenable split: fn.split)

lemma frame_call_resolving:
  assumes "foreign_fn r fr a h" and "caps_foreign r fr a s"
    and "clear r fr a s (call_resolving h x s)"
  shows "frame r fr a s (call_resolving h x s)"
proof (cases x)
  case (Plain v)
  then show ?thesis using assms by (simp add: call_resolving_plain frame_call_fn)
next
  case (Thenable q)
  then show ?thesis using assms(1)
    by (cases h) (simp_all add: frame_call_resolve)
qed

lemma DeferredPromise_new_eq:
  "DeferredPromise_new s =
     (\<lparr>d_promise = length (promises s), d_resolve = ResolveFn (length (promises s)) (length (flags s)),
       d_reject = RejectFn (length (promises s)) (length (flags s))\<rparr>, alloc_cap s)"
  by (simp add: DeferredPromise_new_def new_promise_def create_resolving_functions_def
      alloc_cap_def Let_def)

lemma frame_slots_state [simp]: "frame r fr a s (slots_state n s)"
  by (auto simp: frame_def can_settle_def grows_def slots_state_def state_of_def
      reactions_of_def flag_set_def nth_append)

lemma grows_slots_state [simp]: "grows s s1 \<Longrightarrow> grows s (slots_state n s1)"
  by (simp add: grows_def slots_state_def)

lemma Barrier_new_cases:
  "Barrier_new len s = (Inl (RangeError ''Invalid length''), s) \<or>
   Barrier_new len s = (Inl TypeError, s) \<or>
   Barrier_new len s = (Inl (RangeError ''Invalid array length''), s) \<or>
   Barrier_new len s =
     (Inr \<lparr>b_length = len,
           b_promises = [length (promises s) ..< length (promises s) + nat (the (ToLength len))],
           b_resolveFunctions =
             map (\<lambda>i. ResolveFn (length (promises s) + i) (length (flags s) + i))
               [0..<nat (the (ToLength len))]\<rparr>,
      slots_state (nat (the (ToLength len))) s)"
  by (simp add: Barrier_new_def make_slots_eq split: option.split)

lemma grows_aggregate_next [simp]: "grows s s1 \<Longrightarrow> grows s (aggregate_next b s1)"
  by (simp add: aggregate_next_def Let_def)

lemma grows_aggregate_finish [simp]: "grows s s1 \<Longrightarrow> grows s (aggregate_finish b s1)"
  by (simp add: aggregate_finish_def Let_def)

lemma grows_new_aggregate [simp]: "grows s s1 \<Longrightarrow> grows s (snd (new_aggregate c s1))"
  by (simp add: new_aggregate_def)

lemma grows_all_loop [simp]: "grows s s1 \<Longrightarrow> grows s (all_loop b c i ps s1)"
  by (induction ps arbitrary: s1 i) simp_all

lemma grows_race_loop [simp]: "grows s s1 \<Longrightarrow> grows s (race_loop c ps s1)"
  by (induction ps arbitrary: s1) simp_all

lemma grows_settled_loop [simp]: "grows s s1 \<Longrightarrow> grows s (settled_loop b i ps s1)"
  by (induction ps arbitrary: s1 i) simp_all

lemma promise_all_eq:
  "promise_all ps s =
     (length (promises s),
      aggregate_finish (length (aggregates s))
        (all_loop (length (aggregates s)) (length (promises s), length (flags s)) 0 ps
           (snd (new_aggregate (length (promises s), length (flags s)) (alloc_cap s)))))"
  by (simp add: promise_all_def new_promise_capability_eq new_aggregate_def)

lemma promise_allSettled_eq:
  "promise_allSettled ps s =
     (length (promises s),
      aggregate_finish (length (aggregates s))
        (settled_loop (length (aggregates s)) 0 ps
           (snd (new_aggregate (length (promises s), length (flags s)) (alloc_cap s)))))"
  by (simp add: promise_allSettled_def new_promise_capability_eq new_aggregate_def)

lemma promise_race_eq:
  "promise_race ps s =
     (length (promises s),
      race_loop (length (promises s), length (flags s)) ps (alloc_cap s))"
  by (simp add: promise_race_def new_promise_capability_eq)

lemma grows_promise_all [simp]: "grows s s1 \<Longrightarrow> grows s (snd (promise_all ps s1))"
  by (simp add: promise_all_eq)

lemma grows_promise_allSettled [simp]: "grows s s1 \<Longrightarrow> grows s (snd (promise_allSettled ps s1))"
  by (simp add: promise_allSettled_eq)

lemma grows_promise_race [simp]: "grows s s1 \<Longrightarrow> grows s (snd (promise_race ps s1))"
  by (simp add: promise_race_eq)

lemma frame_aggregate_next:
  assumes "Some b \<noteq> a" shows "frame r fr a s (aggregate_next b s)"
  using assms by (simp add: aggregate_next_def Let_def frame_aggregate_update)

lemma frame_aggregate_finish:
  assumes "Some b \<noteq> a" "caps_foreign r fr a s"
  shows "frame r fr a s (aggregate_finish b s)"
proof (cases "b < length (aggregates s)")
  case False
  then show ?thesis by (simp add: aggregate_finish_def)
next
  case True
  let ?g = "aggregates s ! b"
  have 1: "frame r fr a s (s\<lparr>aggregates := (aggregates s)[b := g1]\<rparr>)"
    if "agg_cap g1 = agg_cap ?g" for g1
    using assms(1) that by (rule frame_aggregate_update)
  have "foreign_cap r fr (agg_cap ?g)" using assms True by (simp add: caps_foreign_def)
  then have "frame r fr a s1 (call_resolve (fst (agg_cap ?g)) (snd (agg_cap ?g)) x s1)" for x s1
    by (intro frame_call_resolve) (simp_all add: foreign_cap_def)
  from frame_trans[OF 1 this]
  have 2: "frame r fr a s (call_resolve (fst (agg_cap ?g)) (snd (agg_cap ?g)) x
              (s\<lparr>aggregates := (aggregates s)[b := g1]\<rparr>))"
    if "agg_cap g1 = agg_cap ?g" for g1 x
    using that by simp
  show ?thesis
    by (simp add: aggregate_finish_def Let_def 1 2)
qed

lemma frame_new_aggregate:
  assumes "foreign_cap r fr c" shows "frame r fr a s (snd (new_aggregate c s))"
  using assms
  by (auto simp: new_aggregate_def frame_def can_settle_def grows_def nth_append)

lemma frame_all_loop:
  assumes "Some b \<noteq> a" "foreign_cap r fr c" "clear r fr a s (all_loop b c i ps s)"
  shows "frame r fr a s (all_loop b c i ps s)"
  using assms(3)
proof (induction ps arbitrary: s i)
  case Nil
  then show ?case by simp
next
  case (Cons p ps)
  let ?s1 = "aggregate_next b s"
  let ?s2 = "snd (promise_then p (Some (AllResolveElement b i)) (Some (RejectFn (fst c) (snd c))) ?s1)"
  let ?s3 = "all_loop b c (Suc i) ps ?s2"
  have c3: "clear r fr a s ?s3" using Cons.prems by simp
  have g1: "grows s ?s1" and g2: "grows ?s1 ?s2" and g3: "grows ?s2 ?s3" by simp_all
  note c12 = clear_split[OF c3 grows_trans[OF g1 g2] g3]
  note c1 = clear_split[OF c12(1) g1 g2]
  have f1: "frame r fr a s ?s1" using assms(1) by (rule frame_aggregate_next)
  have f2: "frame r fr a ?s1 ?s2"
    using assms(1,2) c1(2) by (intro frame_promise_then) (simp_all add: foreign_opt_def foreign_cap_def)
  have f3: "frame r fr a ?s2 ?s3" using c12(2) by (rule Cons.IH)
  show ?case
    unfolding all_loop.simps by (rule frame_trans[OF frame_trans[OF f1 f2] f3])
qed

lemma frame_settled_loop:
  assumes "Some b \<noteq> a" "clear r fr a s (settled_loop b i ps s)"
  shows "frame r fr a s (settled_loop b i ps s)"
  using assms(2)
proof (induction ps arbitrary: s i)
  case Nil
  then show ?case by simp
next
  case (Cons p ps)
  let ?s1 = "aggregate_next b s"
  let ?s2 = "snd (promise_then p (Some (SettledResolveElement b i)) (Some (SettledRejectElement b i)) ?s1)"
  let ?s3 = "settled_loop b (Suc i) ps ?s2"
  have c3: "clear r fr a s ?s3" using Cons.prems by simp
  have g1: "grows s ?s1" and g2: "grows ?s1 ?s2" and g3: "grows ?s2 ?s3" by simp_all
  note c12 = clear_split[OF c3 grows_trans[OF g1 g2] g3]
  note c1 = clear_split[OF c12(1) g1 g2]
  have f1: "frame r fr a s ?s1" using assms(1) by (rule frame_aggregate_next)
  have f2: "frame r fr a ?s1 ?s2"
    using assms(1) c1(2) by (intro frame_promise_then) (simp_all add: foreign_opt_def)
  have f3: "frame r fr a ?s2 ?s3" using c12(2) by (rule Cons.IH)
  show ?case
    unfolding settled_loop.simps by (rule frame_trans[OF frame_trans[OF f1 f2] f3])
qed

lemma frame_race_loop:
  assumes "foreign_cap r fr c" "clear r fr a s (race_loop c ps s)"
  shows "frame r fr a s (race_loop c ps s)"
  using assms(2)
proof (induction ps arbitrary: s)
  case Nil
  then show ?case by simp
next
  case (Cons p ps)
  let ?s2 = "snd (promise_then p (Some (ResolveFn (fst c) (snd c))) (Some (RejectFn (fst c) (snd c))) s)"
  let ?s3 = "race_loop c ps ?s2"
  have c3: "clear r fr a s ?s3" using Cons.prems by simp
  have g2: "grows s ?s2" and g3: "grows ?s2 ?s3" by simp_all
  note c12 = clear_split[OF c3 g2 g3]
  have f2: "frame r fr a s ?s2"
    using assms(1) c12(1) by (intro frame_promise_then) (simp_all add: foreign_opt_def foreign_cap_def)
  have f3: "frame r fr a ?s2 ?s3" using c12(2) by (rule Cons.IH)
  show ?case
    unfolding race_loop.simps by (rule frame_trans[OF f2 f3])
qed

lemma frame_promise_all:
  assumes "caps_foreign r fr a s" "clear r fr a s (snd (promise_all ps s))"
  shows "frame r fr a s (snd (promise_all ps s))"
proof -
  let ?c = "(length (promises s), length (flags s))" and ?b = "length (aggregates s)"
  let ?s0 = "alloc_cap s"
  let ?s1 = "snd (new_aggregate ?c ?s0)"
  let ?s2 = "all_loop ?b ?c 0 ps ?s1"
  let ?s3 = "aggregate_finish ?b ?s2"
  have e: "snd (promise_all ps s) = ?s3" by (simp add: promise_all_eq)
  have g0: "grows s ?s0" and g1: "grows ?s0 ?s1" and g2: "grows ?s1 ?s2" and g3: "grows ?s2 ?s3"
    by simp_all
  have c: "clear r fr a s ?s3" using assms(2) e by simp
  note ca = clear_split[OF c grows_trans[OF grows_trans[OF g0 g1] g2] g3]
  note cb = clear_split[OF ca(1) grows_trans[OF g0 g1] g2]
  note cc = clear_split[OF cb(1) g0 g1]
  have fc: "foreign_cap r fr ?c"
    using clear_fresh(1,2)[OF cc(1)] by (simp add: foreign_cap_def)
  have b: "Some ?b \<noteq> a"
    using clear_fresh(3)[OF cc(2)] by (simp add: new_aggregate_def)
  have f0: "frame r fr a s ?s0" by simp
  have f1: "frame r fr a ?s0 ?s1" using fc by (rule frame_new_aggregate)
  have f2: "frame r fr a ?s1 ?s2" using b fc cb(2) by (rule frame_all_loop)
  note f02 = frame_trans[OF frame_trans[OF f0 f1] f2]
  have "caps_foreign r fr a ?s2" using assms(1) f02 by (rule caps_foreign_frame)
  then have f3: "frame r fr a ?s2 ?s3" using b by (intro frame_aggregate_finish)
  show ?thesis unfolding e by (rule frame_trans[OF f02 f3])
qed

lemma frame_promise_allSettled:
  assumes "caps_foreign r fr a s" "clear r fr a s (snd (promise_allSettled ps s))"
  shows "frame r fr a s (snd (promise_allSettled ps s))"
proof -
  let ?c = "(length (promises s), length (flags s))" and ?b = "length (aggregates s)"
  let ?s0 = "alloc_cap s"
  let ?s1 = "snd (new_aggregate ?c ?s0)"
  let ?s2 = "settled_loop ?b 0 ps ?s1"
  let ?s3 = "aggregate_finish ?b ?s2"
  have e: "snd (promise_allSettled ps s) = ?s3" by (simp add: promise_allSettled_eq)
  have g0: "grows s ?s0" and g1: "grows ?s0 ?s1" and g2: "grows ?s1 ?s2" and g3: "grows ?s2 ?s3"
    by simp_all
  have c: "clear r fr a s ?s3" using assms(2) e by simp
  note ca = clear_split[OF c grows_trans[OF grows_trans[OF g0 g1] g2] g3]
  note cb = clear_split[OF ca(1) grows_trans[OF g0 g1] g2]
  note cc = clear_split[OF cb(1) g0 g1]
  have fc: "foreign_cap r fr ?c"
    using clear_fresh(1,2)[OF cc(1)] by (simp add: foreign_cap_def)
  have b: "Some ?b \<noteq> a"
    using clear_fresh(3)[OF cc(2)] by (simp add: new_aggregate_def)
  have f0: "frame r fr a s ?s0" by simp
  have f1: "frame r fr a ?s0 ?s1" using fc by (rule frame_new_aggregate)
  have f2: "frame r fr a ?s1 ?s2" using b cb(2) by (rule frame_settled_loop)
  note f02 = frame_trans[OF frame_trans[OF f0 f1] f2]
  have "caps_foreign r fr a ?s2" using assms(1) f02 by (rule caps_foreign_frame)
  then have f3: "frame r fr a ?s2 ?s3" using b by (intro frame_aggregate_finish)
  show ?thesis unfolding e by (rule frame_trans[OF f02 f3])
qed

lemma frame_promise_race:
  assumes "clear r fr a s (snd (promise_race ps s))"
  shows "frame r fr a s (snd (promise_race ps s))"
proof -
  let ?c = "(length (promises s), length (flags s))"
  let ?s0 = "alloc_cap s"
  let ?s1 = "race_loop ?c ps ?s0"
  have e: "snd (promise_race ps s) = ?s1" by (simp add: promise_race_eq)
  have g0: "grows s ?s0" and g1: "grows ?s0 ?s1" by simp_all
  have c: "clear r fr a s ?s1" using assms e by simp
  note ca = clear_split[OF c g0 g1]
  have fc: "foreign_cap r fr ?c"
    using clear_fresh(1,2)[OF ca(1)] by (simp add: foreign_cap_def)
  have f1: "frame r fr a ?s0 ?s1" using fc ca(2) by (rule frame_race_loop)
  show ?thesis unfolding e by (rule frame_trans[OF frame_alloc_cap f1])
qed

lemma PromiseSynch_add_eq:
  "y < length (synchs s) \<Longrightarrow>
   PromiseSynch_add y p s =
     (let k = s_index (synchs s ! y);
          s1 = s\<lparr>synchs := (synchs s)[y := (synchs s ! y)\<lparr>s_index := k + 1\<rparr>]\<rparr>;
          s2 = snd (promise_then p (Some (ThenFinally y k)) (Some (CatchFinally y k)) s1)
      in s2\<lparr>synchs := (synchs s2)[y := (synchs s2 ! y)
              \<lparr>s_promises := map_set k (length (promises s)) (s_promises (synchs s2 ! y))\<rparr>]\<rparr>)"
  by (simp add: PromiseSynch_add_def Let_def promise_then_eq)

lemma grows_PromiseSynch_add [simp]: "grows s s1 \<Longrightarrow> grows s (PromiseSynch_add y p s1)"
  by (cases "y < length (synchs s1)") (simp_all add: PromiseSynch_add_eq Let_def, simp add: PromiseSynch_add_def)

lemma frame_PromiseSynch_add:
  assumes "clear r fr a s (PromiseSynch_add y p s)"
  shows "frame r fr a s (PromiseSynch_add y p s)"
proof (cases "y < length (synchs s)")
  case False
  then show ?thesis by (simp add: PromiseSynch_add_def)
next
  case True
  let ?k = "s_index (synchs s ! y)"
  let ?s1 = "s\<lparr>synchs := (synchs s)[y := (synchs s ! y)\<lparr>s_index := ?k + 1\<rparr>]\<rparr>"
  let ?s2 = "snd (promise_then p (Some (ThenFinally y ?k)) (Some (CatchFinally y ?k)) ?s1)"
  let ?s3 = "?s2\<lparr>synchs := (synchs ?s2)[y := (synchs ?s2 ! y)
              \<lparr>s_promises := map_set ?k (length (promises s)) (s_promises (synchs ?s2 ! y))\<rparr>]\<rparr>"
  have e: "PromiseSynch_add y p s = ?s3" using True by (simp add: PromiseSynch_add_eq Let_def)
  have g1: "grows s ?s1" and g2: "grows ?s1 ?s2" and g3: "grows ?s2 ?s3" by simp_all
  have c: "clear r fr a s ?s3" using assms e by simp
  note ca = clear_split[OF c grows_trans[OF g1 g2] g3]
  note cb = clear_split[OF ca(1) g1 g2]
  have f1: "frame r fr a s ?s1" by simp
  have f2: "frame r fr a ?s1 ?s2"
    using cb(2) by (intro frame_promise_then) (simp_all add: foreign_opt_def)
  have f3: "frame r fr a ?s2 ?s3" by simp
  show ?thesis unfolding e by (rule frame_trans[OF frame_trans[OF f1 f2] f3])
qed

lemma grows_PromiseSynch_allSettled [simp]:
  "grows s s1 \<Longrightarrow> grows s (snd (PromiseSynch_allSettled y h s1))"
  by (simp add: PromiseSynch_allSettled_def split: prod.split option.split)
     (metis grows_promise_allSettled grows_promise_then snd_conv)

lemma frame_PromiseSynch_allSettled:
  assumes "user_fn h" "caps_foreign r fr a s"
    and "clear r fr a s (snd (PromiseSynch_allSettled y h s))"
  shows "frame r fr a s (snd (PromiseSynch_allSettled y h s))"
proof -
  let ?ps = "if y < length (synchs s) then map snd (s_promises (synchs s ! y)) else []"
  let ?s1 = "snd (promise_allSettled ?ps s)"
  let ?q = "length (promises s)"
  show ?thesis
  proof (cases h)
    case None
    then have e: "snd (PromiseSynch_allSettled y h s) = ?s1"
      by (simp add: PromiseSynch_allSettled_def split: prod.split)
    show ?thesis unfolding e using assms(2,3)[unfolded e] by (rule frame_promise_allSettled)
  next
    case (Some g)
    let ?s2 = "snd (promise_then ?q (Some g) None ?s1)"
    have e: "snd (PromiseSynch_allSettled y h s) = ?s2"
      by (simp add: PromiseSynch_allSettled_def Some promise_allSettled_eq)
    have g1: "grows s ?s1" and g2: "grows ?s1 ?s2" by simp_all
    have c: "clear r fr a s ?s2" using assms(3) e by simp
    note ca = clear_split[OF c g1 g2]
    have f1: "frame r fr a s ?s1" using assms(2) ca(1) by (rule frame_promise_allSettled)
    have "foreign_opt r fr a (Some g)" using assms(1) Some by (simp add: user_fn_foreign)
    then have f2: "frame r fr a ?s1 ?s2"
      using ca(2) by (intro frame_promise_then) (simp_all add: foreign_opt_def)
    show ?thesis unfolding e by (rule frame_trans[OF f1 f2])
  qed
qed

lemma grows_tick [simp]: "grows s s1 \<Longrightarrow> grows s (tick s1)"
  by (simp add: tick_def split: list.split)

lemma grows_finish_job [simp]: "grows s s1 \<Longrightarrow> grows s (finish_job cap c s1)"
  by (simp add: finish_job_def split: completion.split)

lemma grows_call: "grows (rt w) (rt (call e w))"
proof (cases e)
  case (NewBarrier len)
  show ?thesis
    using Barrier_new_cases[of len "rt w"] by (auto simp: NewBarrier)
next
  case (BResolve i index x)
  then show ?thesis by (simp add: Barrier_resolve_def split: option.split)
next
  case Returned
  then show ?thesis by (simp split: option.split)
qed (simp_all add: DeferredPromise_new_eq DeferredPromise_resolve_def DeferredPromise_reject_def
       Barrier_all_def Barrier_race_def PromiseSynch_new_def)

lemma user_job_SomeD:
  "user_job q = Some (cap, c, js) \<Longrightarrow>
   \<exists>ty g arg. q = ReactionJob cap ty (Some (UserFn g)) arg # js \<and> c = g arg"
  by (cases q rule: user_job.cases) auto

text \<open>The two kinds of turn.\<close>

lemma next_job_cases:
  obtains (tick) "next_job w = w\<lparr>rt := tick (rt w)\<rparr>"
  | (pop) cap ty g arg js where
      "queue (rt w) = ReactionJob cap ty (Some (UserFn g)) arg # js"
      "next_job w = w\<lparr>rt := (rt w)\<lparr>queue := js\<rparr>, running := Some (cap, g arg)\<rparr>"
proof (cases "user_job (queue (rt w))")
  case None
  then show ?thesis using tick by (simp add: next_job_def)
next
  case (Some u)
  obtain cap c js where u: "u = (cap, c, js)" by (cases u)
  from user_job_SomeD[OF Some[unfolded u]] obtain ty g arg where
    "queue (rt w) = ReactionJob cap ty (Some (UserFn g)) arg # js" "c = g arg" by blast
  then show ?thesis using pop Some u by (simp add: next_job_def)
qed

lemma grows_next_job: "grows (rt w) (rt (next_job w))"
proof (cases rule: next_job_cases[of w])
  case tick
  then show ?thesis using grows_tick[OF grows_refl, of "rt w"] by simp
next
  case (pop cap ty g arg js)
  then show ?thesis by (simp add: grows_def)
qed

lemma step_eq: "step e w = (if e = Tick then next_job (call Returned w) else call e w)"
  by (cases e) (simp_all del: call.simps)

lemma count_ticks_single: "count_ticks [e] = (if e = Tick then 1 else 0)"
  by (cases e) simp_all

lemma grows_step: "grows (rt w) (rt (step e w))"
proof (cases "e = Tick")
  case True
  from grows_trans[OF grows_call grows_next_job, of w Returned]
  show ?thesis using True by (simp add: step_eq del: call.simps)
next
  case False
  then show ?thesis using grows_call[of w e] by (simp add: step_eq del: call.simps)
qed

text \<open>
  A continuation that makes no call: starting it and letting it return is the turn
  of the job queue that runs its job.
\<close>

lemma turn_of_continuation:
  assumes "running w = None"
  shows "rt (step Returned (step Tick w)) = tick (rt w)"
proof (cases rule: next_job_cases[of w])
  case tick
  then show ?thesis using assms by simp
next
  case (pop cap ty g arg js)
  then show ?thesis
    using assms by (simp add: tick_def run_job_def finish_job_def split: completion.split)
qed

lemma foreign_range:
  "clear r fr a s s' \<Longrightarrow> i < n \<Longrightarrow> length (promises s) + n \<le> length (promises s') \<Longrightarrow>
   length (flags s) + n \<le> length (flags s') \<Longrightarrow>
   foreign_fn r fr a (ResolveFn (length (promises s) + i) (length (flags s) + i)) \<and>
   foreign_fn r fr a (RejectFn (length (promises s) + i) (length (flags s) + i))"
  by (auto simp: clear_def)

text \<open>Every call of a program is a foreign step when its objects are foreign.\<close>

lemma frame_call:
  assumes "objs_foreign r fr a w" and "caps_foreign r fr a (rt w)"
    and "clear r fr a (rt w) (rt (call e w))"
  shows "frame r fr a (rt w) (rt (call e w))" and "objs_foreign r fr a (call e w)"
proof -
  let ?s = "rt w"
  have of_d: "foreign_fn r fr a (d_resolve (deferreds w ! i))"
             "foreign_fn r fr a (d_reject (deferreds w ! i))" if "i < length (deferreds w)" for i
    using assms(1) that by (simp_all add: objs_foreign_def)
  have of_b: "foreign_fn r fr a h"
    if "i < length (barriers w)" "h \<in> set (b_resolveFunctions (barriers w ! i))" for i h
    using assms(1) that by (auto simp: objs_foreign_def)
  have same: "objs_foreign r fr a (w\<lparr>rt := s'\<rparr>)" for s'
    using assms(1) by (simp add: objs_foreign_def)
  show "frame r fr a ?s (rt (call e w))"
  proof (cases e)
    case Tick
    then show ?thesis by simp
  next
    case Returned
    show ?thesis
    proof (cases "running w")
      case None
      then show ?thesis by (simp add: Returned)
    next
      case (Some u)
      obtain cap c where u: "u = (cap, c)" by (cases u)
      have "foreign_cap r fr cap" using assms(1) Some u by (simp add: objs_foreign_def)
      then have "frame r fr a ?s (finish_job cap c ?s)"
        by (cases c)
           (simp_all add: finish_job_def foreign_cap_def frame_call_resolve frame_call_reject)
      then show ?thesis using Some u by (simp add: Returned)
    qed
  next
    case NewDeferred
    then show ?thesis by (simp add: DeferredPromise_new_eq)
  next
    case (DResolve i x)
    show ?thesis
    proof (cases "i < length (deferreds w)")
      case False
      then show ?thesis by (simp add: DResolve)
    next
      case True
      note f = of_d(1)[OF True]
      show ?thesis
      proof (cases "x = Thenable (d_promise (deferreds w ! i))")
        case own: True
        then show ?thesis
          using True f
          by (simp add: DResolve DeferredPromise_resolve_def frame_resolve_with_own_wrapper)
      next
        case other: False
        have "clear r fr a ?s (call_resolving (d_resolve (deferreds w ! i)) x ?s)"
          using assms(3) True other by (simp add: DResolve DeferredPromise_resolve_def)
        from frame_call_resolving[OF f assms(2) this] show ?thesis
          using True other by (simp add: DResolve DeferredPromise_resolve_def)
      qed
    qed
  next
    case (DReject i v)
    then show ?thesis
      using assms(2,3) of_d(2)[of i]
      by (cases "i < length (deferreds w)")
         (simp_all add: DeferredPromise_reject_def frame_call_resolving)
  next
    case (Then p F R)
    then show ?thesis
      using assms(3)
      by (cases "p < length (promises (rt w)) \<and> user_fn F \<and> user_fn R")
         (auto simp: frame_promise_then user_fn_foreign)
  next
    case (NewBarrier len)
    then show ?thesis using Barrier_new_cases[of len ?s] by auto
  next
    case (BResolve i index x)
    show ?thesis
    proof (cases "i < length (barriers w) \<and> \<not> invalid_arg index")
      case False
      then show ?thesis by (auto simp: BResolve Barrier_resolve_def)
    next
      case True
      show ?thesis
      proof (cases "array_get (b_resolveFunctions (barriers w ! i)) index")
        case None
        then show ?thesis using True by (simp add: BResolve Barrier_resolve_def)
      next
        case (Some h)
        then have "h \<in> set (b_resolveFunctions (barriers w ! i))"
          by (cases "(b_resolveFunctions (barriers w ! i), index)" rule: array_get.cases)
             (auto split: if_splits)
        with of_b True have "foreign_fn r fr a h" by blast
        then show ?thesis
          using True Some assms(2,3)
          by (simp add: BResolve Barrier_resolve_def frame_call_resolving)
      qed
    qed
  next
    case (BAll i)
    then show ?thesis using assms(2,3)
      by (cases "i < length (barriers w)") (simp_all add: Barrier_all_def frame_promise_all)
  next
    case (BRace i)
    then show ?thesis using assms(3)
      by (cases "i < length (barriers w)") (simp_all add: Barrier_race_def frame_promise_race)
  next
    case NewSynch
    then show ?thesis by (simp add: PromiseSynch_new_def)
  next
    case (SAdd y p)
    then show ?thesis using assms(3)
      by (cases "y < length (synchs (rt w)) \<and> p < length (promises (rt w))")
         (auto simp: frame_PromiseSynch_add)
  next
    case (SAllSettled y h)
    then show ?thesis using assms(2,3)
      by (cases "y < length (synchs (rt w)) \<and> user_fn h")
         (auto simp: frame_PromiseSynch_allSettled)
  qed
  show "objs_foreign r fr a (call e w)"
  proof (cases e)
    case NewDeferred
    let ?d = "\<lparr>d_promise = length (promises ?s),
              d_resolve = ResolveFn (length (promises ?s)) (length (flags ?s)),
              d_reject = RejectFn (length (promises ?s)) (length (flags ?s))\<rparr>"
    have st: "call e w = w\<lparr>rt := alloc_cap ?s, deferreds := deferreds w @ [?d]\<rparr>"
      by (simp add: NewDeferred DeferredPromise_new_eq)
    have "clear r fr a ?s (alloc_cap ?s)" using assms(3) st by simp
    from foreign_range[OF this, of 0 1] show ?thesis
      using assms(1) unfolding st by (simp add: objs_foreign_def)
  next
    case (NewBarrier len)
    let ?n = "nat (the (ToLength len))"
    let ?b = "\<lparr>b_length = len,
           b_promises = [length (promises ?s) ..< length (promises ?s) + ?n],
           b_resolveFunctions =
             map (\<lambda>i. ResolveFn (length (promises ?s) + i) (length (flags ?s) + i)) [0..<?n]\<rparr>"
    from Barrier_new_cases[of len ?s]
    consider e where "Barrier_new len ?s = (Inl e, ?s)"
      | "Barrier_new len ?s = (Inr ?b, slots_state ?n ?s)" by blast
    then show ?thesis
    proof cases
      case 1
      then show ?thesis using assms(1) by (simp add: NewBarrier objs_foreign_def)
    next
      case 2
      then have st: "call e w = w\<lparr>rt := slots_state ?n ?s, barriers := barriers w @ [?b]\<rparr>"
        by (simp add: NewBarrier)
      have c: "clear r fr a ?s (slots_state ?n ?s)" using assms(3) st by simp
      have "foreign_fn r fr a (ResolveFn (length (promises ?s) + i) (length (flags ?s) + i))"
        if "i < ?n" for i
        using foreign_range[OF c that] by (simp add: slots_state_def)
      then show ?thesis
        using assms(1) unfolding st by (auto simp: objs_foreign_def)
    qed
  next
    case Returned
    show ?thesis
      using assms(1) by (cases "running w") (auto simp: Returned objs_foreign_def)
  qed (use same assms(1) in \<open>simp_all add: Let_def\<close>)
qed

lemma frame_tick:
  assumes "queue s = j # js" and "foreign_job r fr a j" and "caps_foreign r fr a s"
    and "clear r fr a s (tick s)"
  shows "frame r fr a (s\<lparr>queue := js\<rparr>) (tick s)"
proof -
  have t: "tick s = run_job j (s\<lparr>queue := js\<rparr>)" using assms(1) by (simp add: tick_def)
  have "caps_foreign r fr a (s\<lparr>queue := js\<rparr>)" using assms(3) by (simp add: caps_foreign_def)
  moreover have "clear r fr a (s\<lparr>queue := js\<rparr>) (run_job j (s\<lparr>queue := js\<rparr>))"
    using assms(4) by (simp add: t clear_def split: option.splits)
  ultimately show ?thesis unfolding t using assms(2) by (intro frame_run_job)
qed

lemma unused_state_frame:
  assumes "unused_state r fr a s" and "frame r fr a s s'"
  shows "unused_state r fr a s'"
proof -
  from assms(2) obtain new where new: "queue s' = queue s @ new"
    and j: "\<forall>j \<in> set new. foreign_job r fr a j \<or>
            (\<exists>q ty v x. x \<in> set (reactions_of s q) \<and> can_settle s q \<and>
               state_of s' q = outcome ty v \<and> j = reaction_job ty v x)"
    unfolding frame_def by blast
  have rs: "\<forall>q. \<forall>x \<in> set (reactions_of s' q). x \<in> set (reactions_of s q) \<or> foreign_reaction r fr a x"
    using assms(2) by (simp add: frame_def)
  have 1: "\<forall>q. \<forall>x \<in> set (reactions_of s' q). foreign_reaction r fr a x"
    using rs assms(1) by (auto simp: unused_state_def)
  have 2: "\<forall>j \<in> set (queue s'). foreign_job r fr a j"
    using j assms(1) unfolding new unused_state_def
    by (auto simp: foreign_reaction_job)
  have 3: "caps_foreign r fr a s'"
    using assms by (auto simp: unused_state_def intro: caps_foreign_frame)
  show ?thesis unfolding unused_state_def using 1 2 3 by blast
qed

lemma unused_state_pop:
  "unused_state r fr a s \<Longrightarrow> queue s = j # js \<Longrightarrow> unused_state r fr a (s\<lparr>queue := js\<rparr>)"
  by (simp add: unused_state_def caps_foreign_def)

lemma clear_mid:
  assumes "clear r fr a s s2" "grows s s1" "grows s1 s2"
  shows "clear r fr a s s1" "clear r fr a s1 s2"
  using assms by (auto simp: clear_def grows_def split: option.splits)

lemma objs_foreign_rt [simp]: "objs_foreign r fr a (w\<lparr>rt := s\<rparr>) = objs_foreign r fr a w"
  by (simp add: objs_foreign_def)

lemma objs_foreign_pop:
  "objs_foreign r fr a w \<Longrightarrow> foreign_cap r fr cap \<Longrightarrow>
   objs_foreign r fr a (w\<lparr>rt := s, running := Some (cap, c)\<rparr>)"
  by (simp add: objs_foreign_def)

lemma unused_call:
  assumes "unused r fr a w" and "clear r fr a (rt w) (rt (call e w))"
  shows "unused r fr a (call e w)"
proof -
  from frame_call[OF _ _ assms(2)] assms(1)
  have "frame r fr a (rt w) (rt (call e w))" "objs_foreign r fr a (call e w)"
    by (simp_all add: unused_def unused_state_def)
  with assms(1) show ?thesis by (auto simp: unused_def intro: unused_state_frame)
qed

lemma unused_next_job:
  assumes "unused r fr a w" and "clear r fr a (rt w) (rt (next_job w))"
  shows "unused r fr a (next_job w)"
proof (cases rule: next_job_cases[of w])
  case tick
  have o: "objs_foreign r fr a (next_job w)" using assms(1) by (simp add: tick unused_def)
  show ?thesis
  proof (cases "queue (rt w)")
    case Nil
    then have "next_job w = w" by (simp add: tick tick_def)
    then show ?thesis using assms(1) by simp
  next
    case (Cons j js)
    have u: "unused_state r fr a (rt w)" using assms(1) by (simp add: unused_def)
    then have fj: "foreign_job r fr a j" and cf: "caps_foreign r fr a (rt w)"
      using Cons by (simp_all add: unused_state_def)
    have "clear r fr a (rt w) (tick (rt w))" using assms(2) by (simp add: tick)
    from frame_tick[OF Cons fj cf this] unused_state_pop[OF u Cons]
    have "unused_state r fr a (tick (rt w))" by (rule unused_state_frame[rotated])
    then show ?thesis using o by (simp add: tick unused_def)
  qed
next
  case (pop cap ty g arg js)
  have u: "unused_state r fr a (rt w)" and ob: "objs_foreign r fr a w"
    using assms(1) by (simp_all add: unused_def)
  have "foreign_job r fr a (ReactionJob cap ty (Some (UserFn g)) arg)"
    using u pop(1) by (simp add: unused_state_def)
  then have fc: "foreign_cap r fr cap" by simp
  show ?thesis
    unfolding pop(2) unused_def
    using unused_state_pop[OF u pop(1)] objs_foreign_pop[OF ob fc] by simp
qed

lemma unused_step:
  assumes "unused r fr a w" and "clear r fr a (rt w) (rt (step e w))"
  shows "unused r fr a (step e w)"
proof (cases "e = Tick")
  case False
  then show ?thesis using assms unused_call[of r fr a w e] by (simp add: step_eq)
next
  case True
  let ?w1 = "call Returned w"
  have s: "step e w = next_job ?w1" using True by (simp add: step_eq)
  note c = clear_mid[OF assms(2)[unfolded s] grows_call[of w Returned] grows_next_job[of ?w1]]
  from unused_next_job[OF unused_call[OF assms(1) c(1)] c(2)] show ?thesis by (simp add: s)
qed

lemma wf_step: assumes "wf w" shows "wf (step e w)"
  unfolding wf_def
proof (intro allI impI)
  fix r fr a
  assume b: "length (promises (rt (step e w))) \<le> r \<and> length (flags (rt (step e w))) \<le> fr \<and>
        length (aggregates (rt (step e w))) \<le> a"
  have g: "grows (rt w) (rt (step e w))" by (rule grows_step)
  then have "unused r fr (Some a) w" using assms b by (auto simp: wf_def grows_def)
  moreover have "clear r fr (Some a) (rt w) (rt (step e w))" using b by (simp add: clear_def)
  ultimately show "unused r fr (Some a) (step e w)" by (rule unused_step)
qed

lemma wf_run: "wf w \<Longrightarrow> wf (run es w)"
  by (induction es arbitrary: w) (simp_all add: wf_step)

lemma wf_init: "wf init_world"
  by (simp add: wf_def unused_def unused_state_def init_world_def init_def reactions_of_def
      caps_foreign_def objs_foreign_def)

lemma settled_outcome: "st \<noteq> Pending \<Longrightarrow> \<exists>ty v. st = outcome ty v"
  by (cases st) (auto intro: exI[of _ Fulfill] exI[of _ Reject])

lemma race_job_not_foreign: "race_job r fr j \<Longrightarrow> \<not> foreign_job r fr a j"
  by (cases j) (auto simp: race_handler_def foreign_opt_def split: rtype.splits)

lemma race_job_outcome: "race_job r fr j \<Longrightarrow> job_outcome j \<noteq> Pending"
  by (cases j) auto

lemma race_reaction_job:
  "race_reaction r fr x \<Longrightarrow> race_job r fr (reaction_job ty v x) \<and>
     job_outcome (reaction_job ty v x) = outcome ty v"
  by (cases ty) (simp_all add: race_reaction_def reaction_job_def race_handler_def)

lemma race_stateI:
  assumes "r < length (promises s)" "fr < length (flags s)" "r \<notin> set ps"
    and "\<And>p. p \<in> set ps \<Longrightarrow> p < length (promises s)"
    and "\<And>q x. x \<in> set (reactions_of s q) \<Longrightarrow>
         foreign_reaction r fr None x \<or> (q \<in> set ps \<and> race_reaction r fr x)"
    and "\<And>j. j \<in> set (queue s) \<Longrightarrow>
         foreign_job r fr None j \<or>
         (race_job r fr j \<and> (\<exists>p \<in> set ps. state_of s p = job_outcome j))"
    and "\<And>p. p \<in> set ps \<Longrightarrow> state_of s p = Pending \<Longrightarrow>
         (\<exists>x \<in> set (reactions_of s p). race_reaction r fr x)"
    and "\<not> flag_set s fr \<Longrightarrow> state_of s r = Pending"
    and "\<And>p. \<not> flag_set s fr \<Longrightarrow> p \<in> set ps \<Longrightarrow> state_of s p \<noteq> Pending \<Longrightarrow>
            (\<exists>j \<in> set (queue s). race_job r fr j)"
    and "flag_set s fr \<Longrightarrow> state_of s r \<noteq> Pending \<and> (\<exists>p \<in> set ps. state_of s p = state_of s r)"
    and "caps_foreign r fr None s"
  shows "race_state r fr ps s"
  unfolding race_state_def using assms by blast

lemma race_stateD:
  assumes "race_state r fr ps s"
  shows "r < length (promises s)" "fr < length (flags s)" "r \<notin> set ps"
    and "\<And>p. p \<in> set ps \<Longrightarrow> p < length (promises s)"
    and "\<And>q x. x \<in> set (reactions_of s q) \<Longrightarrow>
         foreign_reaction r fr None x \<or> (q \<in> set ps \<and> race_reaction r fr x)"
    and "\<And>j. j \<in> set (queue s) \<Longrightarrow>
         foreign_job r fr None j \<or>
         (race_job r fr j \<and> (\<exists>p \<in> set ps. state_of s p = job_outcome j))"
    and "\<And>p. p \<in> set ps \<Longrightarrow> state_of s p = Pending \<Longrightarrow>
         (\<exists>x \<in> set (reactions_of s p). race_reaction r fr x)"
    and "\<not> flag_set s fr \<Longrightarrow> state_of s r = Pending"
    and "\<And>p. \<not> flag_set s fr \<Longrightarrow> p \<in> set ps \<Longrightarrow> state_of s p \<noteq> Pending \<Longrightarrow>
            (\<exists>j \<in> set (queue s). race_job r fr j)"
    and "flag_set s fr \<Longrightarrow> state_of s r \<noteq> Pending \<and> (\<exists>p \<in> set ps. state_of s p = state_of s r)"
    and "caps_foreign r fr None s"
  using assms unfolding race_state_def by blast+

lemma race_frame:
  assumes inv: "race_state r fr ps s" and fr: "frame r fr None s s'"
  shows "race_state r fr ps s'" and "winner r fr s = Some out \<Longrightarrow> winner r fr s' = Some out"
proof -
  from fr obtain new where new: "queue s' = queue s @ new"
    and jn: "\<forall>j \<in> set new. foreign_job r fr None j \<or>
            (\<exists>q ty v x. x \<in> set (reactions_of s q) \<and> can_settle s q \<and>
               state_of s' q = outcome ty v \<and> j = reaction_job ty v x)"
    and cn: "\<forall>q ty v. can_settle s q \<and> state_of s' q = outcome ty v \<longrightarrow>
            (\<forall>x \<in> set (reactions_of s q). reaction_job ty v x \<in> set new)"
    unfolding frame_def by blast
  have g: "grows s s'" and one: "\<And>q. state_of s q \<noteq> Pending \<Longrightarrow> state_of s' q = state_of s q"
    and rs: "\<And>q x. x \<in> set (reactions_of s' q) \<Longrightarrow>
               x \<in> set (reactions_of s q) \<or> foreign_reaction r fr None x"
    and ks: "\<And>q. state_of s' q = Pending \<Longrightarrow> set (reactions_of s q) \<subseteq> set (reactions_of s' q)"
    and fl: "flag_set s' fr = flag_set s fr" and sr: "state_of s' r = state_of s r"
    using fr unfolding frame_def by blast+
  have i0: "r < length (promises s)" "fr < length (flags s)" "r \<notin> set ps"
      "\<And>p. p \<in> set ps \<Longrightarrow> p < length (promises s)"
    and i1: "\<And>q x. x \<in> set (reactions_of s q) \<Longrightarrow>
         foreign_reaction r fr None x \<or> (q \<in> set ps \<and> race_reaction r fr x)"
    and i2: "\<And>j. j \<in> set (queue s) \<Longrightarrow>
         foreign_job r fr None j \<or>
         (race_job r fr j \<and> (\<exists>p \<in> set ps. state_of s p = job_outcome j))"
    and i3: "\<And>p. p \<in> set ps \<Longrightarrow> state_of s p = Pending \<Longrightarrow>
         (\<exists>x \<in> set (reactions_of s p). race_reaction r fr x)"
    and i4: "\<not> flag_set s fr \<Longrightarrow> state_of s r = Pending"
      "\<And>p. \<not> flag_set s fr \<Longrightarrow> p \<in> set ps \<Longrightarrow> state_of s p \<noteq> Pending \<Longrightarrow>
            (\<exists>j \<in> set (queue s). race_job r fr j)"
    and i7: "flag_set s fr \<Longrightarrow> state_of s r \<noteq> Pending \<and> (\<exists>p \<in> set ps. state_of s p = state_of s r)"
    and i5: "caps_foreign r fr None s"
    using inv unfolding race_state_def by blast+
  have pend_back: "state_of s p = Pending" if "state_of s' p = Pending" for p
    using one[of p] that by (cases "state_of s p = Pending") auto
  have A: "r < length (promises s')" "fr < length (flags s')" "\<forall>p \<in> set ps. p < length (promises s')"
    using i0 g by (fastforce simp: grows_def)+
  have B: "foreign_reaction r fr None x \<or> (q \<in> set ps \<and> race_reaction r fr x)"
    if "x \<in> set (reactions_of s' q)" for q x
    using rs[OF that] i1 by blast
  have C: "foreign_job r fr None j \<or>
         (race_job r fr j \<and> (\<exists>p \<in> set ps. state_of s' p = job_outcome j))"
    if "j \<in> set (queue s')" for j
  proof (cases "j \<in> set (queue s)")
    case True
    from i2[OF this] show ?thesis
    proof
      assume "race_job r fr j \<and> (\<exists>p \<in> set ps. state_of s p = job_outcome j)"
      then obtain p where p: "race_job r fr j" "p \<in> set ps" "state_of s p = job_outcome j" by blast
      then have "state_of s p \<noteq> Pending" using race_job_outcome by simp
      from one[OF this] p show ?thesis by auto
    qed simp
  next
    case False
    with that new have "j \<in> set new" by simp
    with jn consider "foreign_job r fr None j"
      | q ty v x where "x \<in> set (reactions_of s q)" "can_settle s q"
          "state_of s' q = outcome ty v" "j = reaction_job ty v x" by blast
    then show ?thesis
    proof cases
      case 1 then show ?thesis by simp
    next
      case 2
      from i1[OF 2(1)] show ?thesis
      proof
        assume "foreign_reaction r fr None x"
        then show ?thesis using 2(4) by (simp add: foreign_reaction_job)
      next
        assume "q \<in> set ps \<and> race_reaction r fr x"
        then show ?thesis using race_reaction_job[of r fr x ty v] 2(3,4) by auto
      qed
    qed
  qed
  have D: "\<exists>x \<in> set (reactions_of s' p). race_reaction r fr x"
    if "p \<in> set ps" "state_of s' p = Pending" for p
    using i3[OF that(1) pend_back[OF that(2)]] ks[OF that(2)] by blast
  have E: "\<exists>j \<in> set (queue s'). race_job r fr j"
    if "\<not> flag_set s' fr" "p \<in> set ps" "state_of s' p \<noteq> Pending" for p
  proof (cases "state_of s p = Pending")
    case False
    with i4(2)[of p] that fl show ?thesis by (auto simp: new)
  next
    case True
    then have cs: "can_settle s p" using i0(4)[OF that(2)] by (simp add: can_settle_def)
    from settled_outcome[OF that(3)] obtain ty v where o: "state_of s' p = outcome ty v" by blast
    from i3[OF that(2) True] obtain x where x: "x \<in> set (reactions_of s p)" "race_reaction r fr x"
      by blast
    with cn cs o have "reaction_job ty v x \<in> set new" by blast
    then show ?thesis using race_reaction_job[OF x(2), of ty v] by (auto simp: new)
  qed
  have F: "state_of s' r \<noteq> Pending \<and> (\<exists>p \<in> set ps. state_of s' p = state_of s' r)"
    if "flag_set s' fr"
  proof -
    from that fl i7 obtain p where p: "state_of s r \<noteq> Pending" "p \<in> set ps"
      "state_of s p = state_of s r" by auto
    then have "state_of s' p = state_of s p" using one[of p] by simp
    with p sr show ?thesis by auto
  qed
  have G: "caps_foreign r fr None s'" using i5 fr by (rule caps_foreign_frame)
  show "race_state r fr ps s'"
    unfolding race_state_def
    using A i0(3) B C D E F G i4(1) fl sr by (auto simp del: outcome_simps)
  show "winner r fr s' = Some out" if w: "winner r fr s = Some out"
  proof (cases "flag_set s fr")
    case True
    then show ?thesis using w fl sr by (simp add: winner_def)
  next
    case False
    then obtain j js where "filter (race_job r fr) (queue s) = j # js" "job_outcome j = out"
      using w by (auto simp: winner_def split: list.splits)
    then show ?thesis using False fl by (simp add: winner_def new)
  qed
qed

lemma race_pop_foreign:
  assumes inv: "race_state r fr ps s" and q: "queue s = j # js" and f: "foreign_job r fr None j"
  shows "race_state r fr ps (s\<lparr>queue := js\<rparr>)"
    and "winner r fr (s\<lparr>queue := js\<rparr>) = winner r fr s"
proof -
  have nr: "\<not> race_job r fr j" using f race_job_not_foreign by blast
  have "\<exists>j' \<in> set js. race_job r fr j'" if "\<exists>j' \<in> set (queue s). race_job r fr j'"
    using that nr q by auto
  then show "race_state r fr ps (s\<lparr>queue := js\<rparr>)"
    using inv q unfolding race_state_def
    by (simp add: caps_foreign_def) blast
  show "winner r fr (s\<lparr>queue := js\<rparr>) = winner r fr s"
    using nr q by (simp add: winner_def)
qed

lemma race_call_fn:
  "call_fn (race_handler r fr ty) v s = (Return (Plain (Prim Undefined)), race_call r fr ty v s)"
  by (cases ty; simp add: race_handler_def race_call_def call_resolve_eq call_reject_eq)

lemma race_call_state:
  assumes inv: "race_state r fr ps s" and q: "queue s = j # js"
    and j: "j = ReactionJob c ty (Some (race_handler r fr ty)) v" "foreign_cap r fr c"
  shows "race_state r fr ps (race_call r fr ty v (s\<lparr>queue := js\<rparr>))"
    and "winner r fr (race_call r fr ty v (s\<lparr>queue := js\<rparr>)) = winner r fr s"
    and "winner r fr s \<noteq> None"
proof -
  let ?sp = "s\<lparr>queue := js\<rparr>"
  have rj: "race_job r fr j" using j by simp
  note d = race_stateD[OF inv]
  note i0 = d(1-4) and i1 = d(5) and i2 = d(6) and i3 = d(7) and i4 = d(8) and i7 = d(10)
    and i5 = d(11)
  from i2[of j] q rj obtain p0 where p0: "p0 \<in> set ps" "state_of s p0 = outcome ty v"
    using race_job_not_foreign[OF rj] j by auto
  show w: "winner r fr s \<noteq> None" using q rj by (simp add: winner_def)
  show "race_state r fr ps (race_call r fr ty v ?sp)"
  proof (cases "flag_set s fr")
    case True
    then have e: "race_call r fr ty v ?sp = ?sp" by (simp add: race_call_def)
    show ?thesis
      unfolding e using inv q True unfolding race_state_def
      by (auto simp: caps_foreign_def)
  next
    case False
    let ?s1 = "s\<lparr>queue := js, flags := (flags s)[fr := True]\<rparr>"
    have e: "race_call r fr ty v ?sp = settle r ty v ?s1" using False by (simp add: race_call_def)
    have cs: "can_settle ?s1 r" using i0(1) i4[OF False] by (simp add: can_settle_def)
    have sj: "settle_jobs ?s1 r ty v = map (reaction_job ty v) (reactions_of s r)"
      using cs by (simp add: settle_jobs_def can_settle_def)
    have fj: "foreign_job r fr None j'" if "j' \<in> set (settle_jobs ?s1 r ty v)" for j'
    proof -
      from that obtain x where x: "x \<in> set (reactions_of s r)" "j' = reaction_job ty v x"
        unfolding sj by auto
      from i1[OF x(1)] i0(3) have "foreign_reaction r fr None x" by blast
      then show ?thesis using x(2) by (simp add: foreign_reaction_job)
    qed
    have st: "state_of (settle r ty v ?s1) q = (if q = r then outcome ty v else state_of s q)" for q
      using cs by (simp add: settle_effects)
    have re: "reactions_of (settle r ty v ?s1) q = (if q = r then [] else reactions_of s q)" for q
      using cs by (simp add: settle_effects)
    have qu: "queue (settle r ty v ?s1) = js @ settle_jobs ?s1 r ty v"
      by (simp add: settle_effects)
    have fl: "flag_set (settle r ty v ?s1) fr"
      using i0(2) by (simp add: settle_effects flag_set_def)
    let ?t = "settle r ty v ?s1"
    show ?thesis
      unfolding e
    proof (rule race_stateI)
      show "r < length (promises ?t)" "fr < length (flags ?t)" "r \<notin> set ps"
        using i0 by (simp_all add: settle_effects)
      show "p < length (promises ?t)" if "p \<in> set ps" for p
        using i0(4)[OF that] by (simp add: settle_effects)
      show "foreign_reaction r fr None x \<or> (q \<in> set ps \<and> race_reaction r fr x)"
        if "x \<in> set (reactions_of ?t q)" for q x
        using that i1[of x q] by (simp add: re split: if_splits)
      show "foreign_job r fr None j' \<or>
         (race_job r fr j' \<and> (\<exists>p \<in> set ps. state_of ?t p = job_outcome j'))"
        if "j' \<in> set (queue ?t)" for j'
      proof (cases "j' \<in> set js")
        case True
        then have "j' \<in> set (queue s)" using q by simp
        from i2[OF this] i0(3) show ?thesis by (auto simp: st)
      next
        case False
        with that qu have "j' \<in> set (settle_jobs ?s1 r ty v)" by simp
        then show ?thesis using fj by simp
      qed
      show "\<exists>x \<in> set (reactions_of ?t p). race_reaction r fr x"
        if "p \<in> set ps" "state_of ?t p = Pending" for p
      proof -
        have "p \<noteq> r" using that(1) i0(3) by auto
        then show ?thesis using that i3[of p] by (simp add: st re)
      qed
      show "state_of ?t r = Pending" if "\<not> flag_set ?t fr" using that fl by simp
      show "\<exists>j \<in> set (queue ?t). race_job r fr j"
        if "\<not> flag_set ?t fr" for p using that fl by simp
      show "state_of ?t r \<noteq> Pending \<and> (\<exists>p \<in> set ps. state_of ?t p = state_of ?t r)"
        using p0 i0(3) by (auto simp: st)
      show "caps_foreign r fr None ?t"
        using i5 by (simp add: caps_foreign_def settle_effects)
    qed
  qed
  show "winner r fr (race_call r fr ty v ?sp) = winner r fr s"
  proof (cases "flag_set s fr")
    case True
    then show ?thesis by (simp add: race_call_def winner_def)
  next
    case False
    have cs: "can_settle (s\<lparr>queue := js, flags := (flags s)[fr := True]\<rparr>) r"
      using i0(1) i4[OF False] by (simp add: can_settle_def)
    have "winner r fr s = Some (outcome ty v)"
      using False q rj j by (simp add: winner_def)
    moreover have "winner r fr (race_call r fr ty v ?sp) = Some (outcome ty v)"
      using False cs i0(2) by (simp add: race_call_def winner_def settle_effects)
         (simp add: flag_set_def)
    ultimately show ?thesis by simp
  qed
qed

lemma race_job_cases:
  "race_job r fr j \<Longrightarrow> \<exists>c ty v. j = ReactionJob c ty (Some (race_handler r fr ty)) v \<and> foreign_cap r fr c"
  by (cases j) auto

lemma race_tick:
  assumes inv: "race_state r fr ps s"
  shows "race_state r fr ps (tick s)"
    and "winner r fr s = Some out \<Longrightarrow> winner r fr (tick s) = Some out"
proof -
  have cl: "clear r fr None s s'" for s'
    using inv by (simp add: clear_def race_state_def)
  have "race_state r fr ps (tick s) \<and> (winner r fr s = Some out \<longrightarrow> winner r fr (tick s) = Some out)"
  proof (cases "queue s")
    case Nil
    then show ?thesis using inv by (simp add: tick_def)
  next
    case (Cons j js)
    let ?sp = "s\<lparr>queue := js\<rparr>"
    have cf: "caps_foreign r fr None s" using inv by (simp add: race_state_def)
    show ?thesis
    proof (cases "race_job r fr j")
      case False
      then have f: "foreign_job r fr None j"
        using inv Cons by (auto simp: race_state_def)
      note p = race_pop_foreign[OF inv Cons f]
      have "frame r fr None ?sp (tick s)" using Cons f cf cl by (rule frame_tick)
      from race_frame[OF p(1) this] p(2) show ?thesis by simp
    next
      case True
      from race_job_cases[OF this] obtain c ty v where
        j: "j = ReactionJob c ty (Some (race_handler r fr ty)) v" "foreign_cap r fr c" by blast
      note p = race_call_state[OF inv Cons j]
      let ?s1 = "race_call r fr ty v ?sp"
      have t: "tick s = call_resolve (fst c) (snd c) (Plain (Prim Undefined)) ?s1"
        using Cons j(1) by (simp add: tick_def run_job_def race_call_fn)
      have "frame r fr None ?s1 (tick s)"
        unfolding t using j(2) by (intro frame_call_resolve) (simp_all add: foreign_cap_def)
      from race_frame[OF p(1) this] p(2) show ?thesis by simp
    qed
  qed
  then show "race_state r fr ps (tick s)"
    and "winner r fr s = Some out \<Longrightarrow> winner r fr (tick s) = Some out" by blast+
qed

lemma race_call:
  assumes "race_inv r fr ps w"
  shows "race_inv r fr ps (call e w)"
    and "winner r fr (rt w) = Some out \<Longrightarrow> winner r fr (rt (call e w)) = Some out"
proof -
  have inv: "race_state r fr ps (rt w)" and ob: "objs_foreign r fr None w"
    using assms by (simp_all add: race_inv_def)
  have cl: "clear r fr None (rt w) s'" for s'
    using inv by (simp add: clear_def race_state_def)
  have cf: "caps_foreign r fr None (rt w)" using inv by (simp add: race_state_def)
  note f = frame_call[OF ob cf cl]
  from race_frame[OF inv f(1)] f(2)
  show "race_inv r fr ps (call e w)"
    and "winner r fr (rt w) = Some out \<Longrightarrow> winner r fr (rt (call e w)) = Some out"
    by (simp_all add: race_inv_def)
qed

lemma race_next_job:
  assumes "race_inv r fr ps w"
  shows "race_inv r fr ps (next_job w)"
    and "winner r fr (rt w) = Some out \<Longrightarrow> winner r fr (rt (next_job w)) = Some out"
proof -
  have inv: "race_state r fr ps (rt w)" and ob: "objs_foreign r fr None w"
    using assms by (simp_all add: race_inv_def)
  have "race_inv r fr ps (next_job w) \<and>
        (winner r fr (rt w) = Some out \<longrightarrow> winner r fr (rt (next_job w)) = Some out)"
  proof (cases rule: next_job_cases[of w])
    case tick
    then show ?thesis using race_tick[OF inv] ob by (simp add: race_inv_def)
  next
    case (pop cap ty g arg js)
    let ?j = "ReactionJob cap ty (Some (UserFn g)) arg"
    have "\<not> race_job r fr ?j" by (simp add: race_handler_def split: rtype.split)
    then have fj: "foreign_job r fr None ?j"
      using race_stateD(6)[OF inv, of ?j] pop(1) by auto
    then have fc: "foreign_cap r fr cap" by simp
    note p = race_pop_foreign[OF inv pop(1) fj]
    show ?thesis
      unfolding pop(2) race_inv_def using p objs_foreign_pop[OF ob fc] by simp
  qed
  then show "race_inv r fr ps (next_job w)"
    and "winner r fr (rt w) = Some out \<Longrightarrow> winner r fr (rt (next_job w)) = Some out"
    by blast+
qed

lemma race_step:
  assumes "race_inv r fr ps w"
  shows "race_inv r fr ps (step e w)"
    and "winner r fr (rt w) = Some out \<Longrightarrow> winner r fr (rt (step e w)) = Some out"
proof -
  have inv: "race_state r fr ps (rt w)" and ob: "objs_foreign r fr None w"
    using assms by (simp_all add: race_inv_def)
  have cl: "clear r fr None (rt w) s'" for s'
    using inv by (simp add: clear_def race_state_def)
  have cf: "caps_foreign r fr None (rt w)" using inv by (simp add: race_state_def)
  have "race_inv r fr ps (step e w) \<and>
        (winner r fr (rt w) = Some out \<longrightarrow> winner r fr (rt (step e w)) = Some out)"
  proof (cases "e = Tick")
    case False
    then have s: "step e w = call e w" by (simp add: step_eq)
    show ?thesis unfolding s using race_call[OF assms] by blast
  next
    case True
    then have s: "step e w = next_job (call Returned w)" by (simp add: step_eq)
    note c1 = race_call(1)[OF assms, where e = Returned]
    note c2 = race_call(2)[OF assms, where e = Returned and out = out]
    from race_next_job(1)[OF c1] race_next_job(2)[OF c1, where out = out] c2
    show ?thesis unfolding s by blast
  qed
  then show "race_inv r fr ps (step e w)"
    and "winner r fr (rt w) = Some out \<Longrightarrow> winner r fr (rt (step e w)) = Some out" by blast+
qed

lemma race_run:
  assumes "race_inv r fr ps w"
  shows "race_inv r fr ps (run es w)"
    and "winner r fr (rt w) = Some out \<Longrightarrow> winner r fr (rt (run es w)) = Some out"
  using assms
  by (induction es arbitrary: w) (simp_all add: race_step)

lemma foreign_fn_None: "foreign_fn r fr (Some a) h \<Longrightarrow> foreign_fn r fr None h"
  by (cases h) simp_all

lemma foreign_opt_None: "foreign_opt r fr (Some a) h \<Longrightarrow> foreign_opt r fr None h"
  by (cases h) (simp_all add: foreign_opt_def foreign_fn_None)

lemma foreign_reaction_None: "foreign_reaction r fr (Some a) x \<Longrightarrow> foreign_reaction r fr None x"
  using foreign_opt_None[of r fr a] by (auto simp: foreign_reaction_def)

lemma foreign_job_None: "foreign_job r fr (Some a) j \<Longrightarrow> foreign_job r fr None j"
  using foreign_opt_None[of r fr a] by (cases j) auto

lemma objs_foreign_None: "objs_foreign r fr (Some a) w \<Longrightarrow> objs_foreign r fr None w"
  using foreign_fn_None[of r fr a] by (auto simp: objs_foreign_def)

lemma wf_fresh:
  assumes "wf w"
  shows "\<And>q x. x \<in> set (reactions_of (rt w) q) \<Longrightarrow>
           foreign_reaction (length (promises (rt w))) (length (flags (rt w))) None x"
    and "\<And>j. j \<in> set (queue (rt w)) \<Longrightarrow>
           foreign_job (length (promises (rt w))) (length (flags (rt w))) None j"
    and "\<And>b. b < length (aggregates (rt w)) \<Longrightarrow>
           foreign_cap (length (promises (rt w))) (length (flags (rt w))) (agg_cap (aggregates (rt w) ! b))"
    and "objs_foreign (length (promises (rt w))) (length (flags (rt w))) None w"
proof -
  let ?r = "length (promises (rt w))" and ?fr = "length (flags (rt w))"
  let ?a = "length (aggregates (rt w))"
  have u: "unused ?r ?fr (Some ?a) w" using assms by (simp add: wf_def)
  show "foreign_reaction ?r ?fr None x" if "x \<in> set (reactions_of (rt w) q)" for q x
    using u that by (auto simp: unused_def unused_state_def intro: foreign_reaction_None)
  show "foreign_job ?r ?fr None j" if "j \<in> set (queue (rt w))" for j
    using u that by (auto simp: unused_def unused_state_def intro: foreign_job_None)
  show "foreign_cap ?r ?fr (agg_cap (aggregates (rt w) ! b))" if "b < ?a" for b
    using u that by (auto simp: unused_def unused_state_def caps_foreign_def)
  show "objs_foreign ?r ?fr None w"
    using u by (auto simp: unused_def intro: objs_foreign_None)
qed

lemma promise_then_effects:
  "state_of (snd (promise_then p F R s)) q = state_of s q"
  "reactions_of (snd (promise_then p F R s)) q =
     (if q = p \<and> (can_settle s p \<or> p = length (promises s))
      then reactions_of s p @
             [\<lparr>capability = (length (promises s), length (flags s)), on_fulfilled = F, on_rejected = R\<rparr>]
      else reactions_of s q)"
  "queue (snd (promise_then p F R s)) =
     queue s @ (case state_of s p of Pending \<Rightarrow> []
                | Fulfilled v \<Rightarrow> [ReactionJob (length (promises s), length (flags s)) Fulfill F v]
                | Rejected v \<Rightarrow> [ReactionJob (length (promises s), length (flags s)) Reject R v])"
  "flag_set (snd (promise_then p F R s)) f = flag_set s f"
  "aggregates (snd (promise_then p F R s)) = aggregates s"
  "synchs (snd (promise_then p F R s)) = synchs s"
  "observed (snd (promise_then p F R s)) = observed s"
  "length (promises (snd (promise_then p F R s))) = Suc (length (promises s))"
  "length (flags (snd (promise_then p F R s))) = Suc (length (flags s))"
proof -
  have 1: "p \<noteq> length (promises s)" if "can_settle s p"
    using that by (auto simp: can_settle_def)
  show "reactions_of (snd (promise_then p F R s)) q =
     (if q = p \<and> (can_settle s p \<or> p = length (promises s))
      then reactions_of s p @
             [\<lparr>capability = (length (promises s), length (flags s)), on_fulfilled = F, on_rejected = R\<rparr>]
      else reactions_of s q)"
    unfolding promise_then_eq snd_conv perform_then_effects
    by (auto simp: reactions_of_alloc_cap can_settle_alloc_cap)
qed (simp_all add: promise_then_eq perform_then_effects)

lemma race_loop_state:
  assumes "race_state r fr done s" and "\<not> flag_set s fr"
    and "\<forall>p \<in> set ps. p < length (promises s) \<and> p \<noteq> r"
  shows "race_state r fr (done @ ps) (race_loop (r, fr) ps s) \<and>
         \<not> flag_set (race_loop (r, fr) ps s) fr"
  using assms
proof (induction ps arbitrary: s "done")
  case Nil
  then show ?case by simp
next
  case (Cons p ps)
  let ?c = "(length (promises s), length (flags s))"
  let ?F = "Some (ResolveFn r fr)" and ?R = "Some (RejectFn r fr)"
  let ?t = "snd (promise_then p ?F ?R s)"
  note d = race_stateD[OF Cons.prems(1)]
  have p: "p < length (promises s)" "p \<noteq> r" using Cons.prems(3) by simp_all
  have fc: "foreign_cap r fr ?c" using d(1,2) by (simp add: foreign_cap_def)
  have nf: "\<not> flag_set ?t fr" using Cons.prems(2) by (simp add: promise_then_effects)
  have rr: "race_reaction r fr \<lparr>capability = ?c, on_fulfilled = ?F, on_rejected = ?R\<rparr>"
    using fc by (simp add: race_reaction_def)
  have inv: "race_state r fr (done @ [p]) ?t"
  proof (rule race_stateI)
    show "r < length (promises ?t)" "fr < length (flags ?t)" "r \<notin> set (done @ [p])"
      using d(1,2,3) p by (simp_all add: promise_then_effects)
    show "q < length (promises ?t)" if "q \<in> set (done @ [p])" for q
      using that d(4)[of q] p by (auto simp: promise_then_effects less_Suc_eq)
    show "foreign_reaction r fr None x \<or> (q \<in> set (done @ [p]) \<and> race_reaction r fr x)"
      if "x \<in> set (reactions_of ?t q)" for q x
      using that d(5)[of x q] rr by (auto simp: promise_then_effects split: if_splits)
    show "foreign_job r fr None j \<or>
         (race_job r fr j \<and> (\<exists>q \<in> set (done @ [p]). state_of ?t q = job_outcome j))"
      if "j \<in> set (queue ?t)" for j
    proof (cases "j \<in> set (queue s)")
      case True
      from d(6)[OF this] show ?thesis by (auto simp: promise_then_effects)
    next
      case False
      with that show ?thesis
        using fc by (auto simp: promise_then_effects race_handler_def split: pstate.splits)
    qed
    show "\<exists>x \<in> set (reactions_of ?t q). race_reaction r fr x"
      if "q \<in> set (done @ [p])" "state_of ?t q = Pending" for q
    proof (cases "q = p")
      case True
      then have "can_settle s p" using that(2) p by (simp add: can_settle_def promise_then_effects)
      then show ?thesis using True rr by (simp add: promise_then_effects)
    next
      case False
      with that have "q \<in> set done" "state_of s q = Pending" by (simp_all add: promise_then_effects)
      from d(7)[OF this] show ?thesis by (auto simp: promise_then_effects)
    qed
    show "state_of ?t r = Pending" if "\<not> flag_set ?t fr"
      using d(8) Cons.prems(2) by (simp add: promise_then_effects)
    show "\<exists>j \<in> set (queue ?t). race_job r fr j"
      if "\<not> flag_set ?t fr" "q \<in> set (done @ [p])" "state_of ?t q \<noteq> Pending" for q
    proof (cases "q \<in> set done")
      case True
      from d(9)[OF Cons.prems(2) True] that(3) show ?thesis by (auto simp: promise_then_effects)
    next
      case False
      with that have "q = p" "state_of s p \<noteq> Pending" by (simp_all add: promise_then_effects)
      then show ?thesis
        using fc by (cases "state_of s p") (simp_all add: promise_then_effects race_handler_def)
    qed
    show "state_of ?t r \<noteq> Pending \<and> (\<exists>q \<in> set (done @ [p]). state_of ?t q = state_of ?t r)"
      if "flag_set ?t fr" using that nf by simp
    show "caps_foreign r fr None ?t"
      using d(11) by (simp add: caps_foreign_def promise_then_effects)
  qed
  have "\<forall>q \<in> set ps. q < length (promises ?t) \<and> q \<noteq> r"
    using Cons.prems(3) by (auto simp: promise_then_effects)
  from Cons.IH[OF inv nf this] show ?case by simp
qed

lemma race_establish:
  assumes "wf w" and "\<forall>p \<in> set ps. p < length (promises (rt w))"
  shows "race_inv (length (promises (rt w))) (length (flags (rt w))) ps
           (w\<lparr>rt := snd (promise_race ps (rt w))\<rparr>)"
    and "\<not> flag_set (snd (promise_race ps (rt w))) (length (flags (rt w)))"
proof -
  let ?s = "rt w"
  let ?r = "length (promises ?s)" and ?fr = "length (flags ?s)"
  note f = wf_fresh[OF assms(1)]
  have 0: "race_state ?r ?fr [] (alloc_cap ?s)"
  proof (rule race_stateI)
    show "foreign_reaction ?r ?fr None x \<or> (q \<in> set [] \<and> race_reaction ?r ?fr x)"
      if "x \<in> set (reactions_of (alloc_cap ?s) q)" for q x
      using that f(1) by simp
    show "foreign_job ?r ?fr None j \<or>
         (race_job ?r ?fr j \<and> (\<exists>p \<in> set []. state_of (alloc_cap ?s) p = job_outcome j))"
      if "j \<in> set (queue (alloc_cap ?s))" for j
      using that f(2) by simp
    show "caps_foreign ?r ?fr None (alloc_cap ?s)"
      using f(3) by (simp add: caps_foreign_def)
    show "state_of (alloc_cap ?s) ?r = Pending" by (simp add: state_of_def)
    show "state_of (alloc_cap ?s) ?r \<noteq> Pending \<and>
          (\<exists>p \<in> set []. state_of (alloc_cap ?s) p = state_of (alloc_cap ?s) ?r)"
      if "flag_set (alloc_cap ?s) ?fr" using that by (simp add: flag_set_def)
  qed simp_all
  have 1: "\<not> flag_set (alloc_cap ?s) ?fr" by (simp add: flag_set_def)
  have 2: "\<forall>p \<in> set ps. p < length (promises (alloc_cap ?s)) \<and> p \<noteq> ?r"
    using assms(2) by auto
  from race_loop_state[OF 0 1 2]
  show "race_inv ?r ?fr ps (w\<lparr>rt := snd (promise_race ps ?s)\<rparr>)"
    and "\<not> flag_set (snd (promise_race ps ?s)) ?fr"
    using f(4) by (simp_all add: race_inv_def promise_race_eq objs_foreign_def)
qed

lemma barrier_ok_grows: "barrier_ok b s \<Longrightarrow> grows s s' \<Longrightarrow> barrier_ok b s'"
  by (auto simp: barrier_ok_def grows_def list_all_iff split: fn.splits)

lemma barrier_ok_new:
  "barrier_ok \<lparr>b_length = len,
           b_promises = [length (promises s) ..< length (promises s) + n],
           b_resolveFunctions =
             map (\<lambda>i. ResolveFn (length (promises s) + i) (length (flags s) + i)) [0..<n]\<rparr>
     (slots_state n s)"
  by (simp add: barrier_ok_def list_all_iff slots_state_def)

lemma objs_ok_call: assumes "objs_ok w" shows "objs_ok (call e w)"
proof -
  have g: "grows (rt w) (rt (call e w))" by (rule grows_call)
  have old: "barrier_ok b (rt (call e w))" if "b \<in> set (barriers w)" for b
    using assms that g by (auto simp: objs_ok_def intro: barrier_ok_grows)
  show ?thesis
  proof (cases e)
    case (NewBarrier len)
    show ?thesis
      using Barrier_new_cases[of len "rt w"] old barrier_ok_new[of len "rt w" "nat (the (ToLength len))"]
      unfolding objs_ok_def NewBarrier by (auto simp: NewBarrier)
  next
    case Returned
    show ?thesis
      using old assms by (cases "running w") (auto simp: Returned objs_ok_def)
  qed (use old assms in \<open>auto simp: objs_ok_def Let_def split: prod.splits\<close>)
qed

lemma objs_ok_rt:
  "objs_ok w \<Longrightarrow> grows (rt w) s \<Longrightarrow> objs_ok (w\<lparr>rt := s\<rparr>)"
  by (auto simp: objs_ok_def intro: barrier_ok_grows)

lemma objs_ok_next_job: assumes "objs_ok w" shows "objs_ok (next_job w)"
proof (cases rule: next_job_cases[of w])
  case tick
  then show ?thesis using objs_ok_rt[OF assms, of "tick (rt w)"] by simp
next
  case (pop cap ty g arg js)
  have "barrier_ok b ((rt w)\<lparr>queue := js\<rparr>)" if "barrier_ok b (rt w)" for b
    using that by (rule barrier_ok_grows) (simp add: grows_def)
  then show ?thesis using assms by (simp add: pop(2) objs_ok_def)
qed

lemma objs_ok_step: assumes "objs_ok w" shows "objs_ok (step e w)"
  unfolding step_eq using objs_ok_next_job[OF objs_ok_call[OF assms]] objs_ok_call[OF assms]
  by (simp del: call.simps)

lemma objs_ok_run: "objs_ok w \<Longrightarrow> objs_ok (run es w)"
  by (induction es arbitrary: w) (simp_all add: objs_ok_step)

lemma objs_ok_init: "objs_ok init_world"
  by (simp add: objs_ok_def init_world_def)

lemma barrier_promises_allocated:
  assumes "objs_ok w" "i < length (barriers w)" "p \<in> set (b_promises (barriers w ! i))"
  shows "p < length (promises (rt w))"
proof -
  have "barrier_ok (barriers w ! i) (rt w)" using assms(1,2) by (simp add: objs_ok_def)
  moreover obtain k where "k < length (b_promises (barriers w ! i))" "p = b_promises (barriers w ! i) ! k"
    using assms(3) by (auto simp: in_set_conv_nth)
  ultimately show ?thesis by (simp add: barrier_okD(2))
qed

lemma winner_first:
  assumes inv: "race_state r fr ps s"
    and p: "p \<in> set ps" "state_of s p = out" "out \<noteq> Pending"
    and others: "\<forall>q \<in> set ps. q \<noteq> p \<longrightarrow> state_of s q = Pending"
  shows "winner r fr s = Some out"
proof (cases "flag_set s fr")
  case True
  from race_stateD(10)[OF inv True] obtain q where
    q: "q \<in> set ps" "state_of s q = state_of s r" "state_of s r \<noteq> Pending" by blast
  then have "q = p" using others by auto
  then show ?thesis using True q p by (simp add: winner_def)
next
  case False
  from race_stateD(9)[OF inv False p(1)] p(2,3)
  obtain j where j: "j \<in> set (queue s)" "race_job r fr j" by blast
  then have ne: "filter (race_job r fr) (queue s) \<noteq> []" by (auto simp: filter_empty_conv)
  then obtain j' js where f: "filter (race_job r fr) (queue s) = j' # js"
    by (cases "filter (race_job r fr) (queue s)") auto
  then have "j' \<in> set (filter (race_job r fr) (queue s))" by simp
  then have j': "j' \<in> set (queue s)" "race_job r fr j'" by simp_all
  from race_stateD(6)[OF inv j'(1)] race_job_not_foreign[OF j'(2)]
  obtain q where q: "q \<in> set ps" "state_of s q = job_outcome j'" by blast
  have "job_outcome j' \<noteq> Pending" using j'(2) by (rule race_job_outcome)
  then have "q = p" using others q by auto
  then show ?thesis using False f q p by (simp add: winner_def)
qed

lemma winner_settled:
  assumes inv: "race_state r fr ps s" and w: "winner r fr s = Some out"
  shows "state_of s r = Pending \<or> state_of s r = out"
    and "queue s = [] \<Longrightarrow> state_of s r = out"
proof -
  show "state_of s r = Pending \<or> state_of s r = out"
    using race_stateD(8)[OF inv] w by (cases "flag_set s fr") (simp_all add: winner_def)
  show "state_of s r = out" if "queue s = []"
    using w that by (cases "flag_set s fr") (simp_all add: winner_def)
qed

lemma race_all_pending:
  assumes inv: "race_state r fr ps s" and "\<forall>q \<in> set ps. state_of s q = Pending"
  shows "state_of s r = Pending"
proof (cases "flag_set s fr")
  case True
  from race_stateD(10)[OF inv True] assms(2) show ?thesis by auto
next
  case False
  then show ?thesis by (rule race_stateD(8)[OF inv])
qed

lemma frame_flag: "frame r fr a s s' \<Longrightarrow> flag_set s' fr = flag_set s fr"
  by (simp add: frame_def)

lemma frame_queue: "frame r fr a s s' \<Longrightarrow> \<exists>new. queue s' = queue s @ new"
  unfolding frame_def by blast

lemma winner_job:
  "winner r fr s = Some out \<Longrightarrow> \<not> flag_set s fr \<Longrightarrow> \<exists>j \<in> set (queue s). race_job r fr j"
proof -
  assume w: "winner r fr s = Some out" and nf: "\<not> flag_set s fr"
  then obtain j js where "filter (race_job r fr) (queue s) = j # js"
    by (auto simp: winner_def split: list.splits)
  then have "j \<in> set (filter (race_job r fr) (queue s))" by simp
  then show ?thesis by auto
qed

lemma race_lead_frame:
  assumes "frame r fr None s s'" and "winner r fr s = Some out"
  shows "race_lead r fr s' = race_lead r fr s"
proof (cases "flag_set s fr")
  case True
  then show ?thesis using frame_flag[OF assms(1)] by (simp add: race_lead_def)
next
  case False
  from winner_job[OF assms(2) False] obtain j where j: "j \<in> set (queue s)" "race_job r fr j"
    by blast
  from frame_queue[OF assms(1)] obtain new where new: "queue s' = queue s @ new" by blast
  have "takeWhile (\<lambda>j. \<not> race_job r fr j) (queue s @ new) =
        takeWhile (\<lambda>j. \<not> race_job r fr j) (queue s)"
    using j by (intro takeWhile_append1[of j]) simp_all
  then show ?thesis using False frame_flag[OF assms(1)] new by (simp add: race_lead_def)
qed

lemma race_lead_queue:
  assumes "winner r fr s = Some out"
  shows "race_lead r fr s \<le> length (queue s)"
proof (cases "flag_set s fr")
  case True
  then show ?thesis by (simp add: race_lead_def)
next
  case False
  from winner_job[OF assms False] obtain j where j: "j \<in> set (queue s)" "race_job r fr j"
    by blast
  have "takeWhile (\<lambda>j. \<not> race_job r fr j) (queue s) \<noteq> queue s"
    using j by (auto simp: takeWhile_eq_all_conv)
  moreover have "length (takeWhile (\<lambda>j. \<not> race_job r fr j) (queue s)) \<le> length (queue s)"
    by (rule length_takeWhile_le)
  ultimately have "length (takeWhile (\<lambda>j. \<not> race_job r fr j) (queue s)) < length (queue s)"
    by (metis (no_types, lifting) le_neq_implies_less takeWhile_eq_take take_all_iff le_refl)
  then show ?thesis using False by (simp add: race_lead_def)
qed

lemma race_lead_tick:
  assumes inv: "race_state r fr ps s" and win: "winner r fr s = Some out"
  shows "race_lead r fr (tick s) \<le> race_lead r fr s - 1"
proof (cases "queue s")
  case Nil
  then have "flag_set s fr" using win by (auto simp: winner_def split: if_splits)
  then show ?thesis using Nil by (simp add: tick_def race_lead_def)
next
  case (Cons j js)
  let ?sp = "s\<lparr>queue := js\<rparr>"
  have cl: "clear r fr None s s'" for s'
    using inv by (simp add: clear_def race_state_def)
  have cf: "caps_foreign r fr None s" using inv by (simp add: race_state_def)
  show ?thesis
  proof (cases "race_job r fr j")
    case False
    then have f: "foreign_job r fr None j"
      using inv Cons by (auto simp: race_state_def)
    note p = race_pop_foreign[OF inv Cons f]
    have fr: "frame r fr None ?sp (tick s)" using Cons f cf cl by (rule frame_tick)
    have "race_lead r fr (tick s) = race_lead r fr ?sp"
      using fr p(2) win by (intro race_lead_frame) simp_all
    moreover have "race_lead r fr ?sp = race_lead r fr s - 1"
      using False Cons by (simp add: race_lead_def flag_set_def)
    ultimately show ?thesis by simp
  next
    case True
    from race_job_cases[OF this] obtain c ty v where
      j: "j = ReactionJob c ty (Some (race_handler r fr ty)) v" "foreign_cap r fr c" by blast
    let ?s1 = "race_call r fr ty v ?sp"
    have t: "tick s = call_resolve (fst c) (snd c) (Plain (Prim Undefined)) ?s1"
      using Cons j(1) by (simp add: tick_def run_job_def race_call_fn)
    have fr: "frame r fr None ?s1 (tick s)"
      unfolding t using j(2) by (intro frame_call_resolve) (simp_all add: foreign_cap_def)
    have lt: "fr < length (flags s)" using race_stateD(2)[OF inv] .
    have "flag_set ?s1 fr"
      using lt by (simp add: race_call_def settle_effects flag_set_def)
    then have "flag_set (tick s) fr" using frame_flag[OF fr] by simp
    then show ?thesis by (simp add: race_lead_def)
  qed
qed

lemma race_lead_step:
  assumes "race_inv r fr ps w" and win: "winner r fr (rt w) = Some out"
  shows "race_lead r fr (rt (step e w)) \<le> race_lead r fr (rt w) - count_ticks [e]"
proof -
  have inv: "race_state r fr ps (rt w)" and ob: "objs_foreign r fr None w"
    using assms by (simp_all add: race_inv_def)
  have cl: "clear r fr None (rt w) s'" for s'
    using inv by (simp add: clear_def race_state_def)
  have cf: "caps_foreign r fr None (rt w)" using inv by (simp add: race_state_def)
  show ?thesis
  proof (cases "e = Tick")
    case False
    note f = frame_call[OF ob cf cl]
    show ?thesis using race_lead_frame[OF f(1) win] False by (simp add: step_eq count_ticks_single)
  next
    case True
    define w1 where "w1 = call Returned w"
    note f = frame_call[OF ob cf cl, where e = Returned]
    note c = race_call(1)[OF assms(1), where e = Returned]
      race_call(2)[OF assms(1), where e = Returned and out = out]
    have l1: "race_lead r fr (rt w1) = race_lead r fr (rt w)"
      unfolding w1_def by (rule race_lead_frame[OF f(1) win])
    have win1: "winner r fr (rt w1) = Some out" unfolding w1_def using c(2) win by blast
    have inv1: "race_state r fr ps (rt w1)"
      unfolding w1_def using c(1) by (simp only: race_inv_def)
    have "race_lead r fr (rt (next_job w1)) \<le> race_lead r fr (rt w1) - 1"
    proof (cases rule: next_job_cases[of w1])
      case tick
      then show ?thesis using race_lead_tick[OF inv1 win1] by simp
    next
      case (pop cap ty g arg js)
      let ?j = "ReactionJob cap ty (Some (UserFn g)) arg"
      have nr: "\<not> race_job r fr ?j" by (simp add: race_handler_def split: rtype.split)
      have "race_lead r fr ((rt w1)\<lparr>queue := js\<rparr>) = race_lead r fr (rt w1) - 1"
        using nr pop(1) by (simp add: race_lead_def flag_set_def)
      then show ?thesis by (simp add: pop(2))
    qed
    moreover have "step e w = next_job w1" using True by (simp add: step_eq w1_def)
    ultimately show ?thesis using l1 True by (simp add: count_ticks_single)
  qed
qed

lemma count_ticks_Cons: "count_ticks (e # es) = count_ticks [e] + count_ticks es"
  by (cases e) simp_all

lemma race_lead_run:
  assumes "race_inv r fr ps w" and "winner r fr (rt w) = Some out"
  shows "race_lead r fr (rt (run es w)) \<le> race_lead r fr (rt w) - count_ticks es"
  using assms
proof (induction es arbitrary: w)
  case Nil
  then show ?case by simp
next
  case (Cons e es)
  have 1: "race_inv r fr ps (step e w)" and 2: "winner r fr (rt (step e w)) = Some out"
    using race_step[OF Cons.prems(1)] Cons.prems(2) by blast+
  from Cons.IH[OF 1 2] race_lead_step[OF Cons.prems, of e]
  show ?case unfolding run.simps count_ticks_Cons[of e es] by linarith
qed

lemma race_decided:
  assumes "race_inv r fr ps w" and "winner r fr (rt w) = Some out"
    and "length (queue (rt w)) \<le> count_ticks es"
  shows "state_of (rt (run es w)) r = out"
proof -
  have "race_lead r fr (rt (run es w)) = 0"
    using race_lead_run[OF assms(1,2), of es] race_lead_queue[OF assms(2)] assms(3) by linarith
  then have "flag_set (rt (run es w)) fr" by (simp add: race_lead_def split: if_splits)
  moreover have "winner r fr (rt (run es w)) = Some out"
    using race_run(2)[OF assms(1,2)] .
  ultimately show ?thesis by (simp add: winner_def)
qed

lemma first_settled_Cons:
  "first_settled s (p # ps) =
     (if state_of s p \<noteq> Pending then Some (state_of s p) else first_settled s ps)"
  by (simp add: first_settled_def)

lemma first_settled_cong:
  "(\<And>q. state_of s' q = state_of s q) \<Longrightarrow> first_settled s' ps = first_settled s ps"
  by (simp add: first_settled_def split: list.split)

lemma winner_promise_then:
  assumes "r < length (promises s)" "fr < length (flags s)" "\<not> flag_set s fr"
  shows "winner r fr (snd (promise_then p (Some (ResolveFn r fr)) (Some (RejectFn r fr)) s)) =
           (case winner r fr s of
              Some out \<Rightarrow> Some out
            | None \<Rightarrow> if state_of s p \<noteq> Pending then Some (state_of s p) else None)"
proof -
  have fc: "foreign_cap r fr (length (promises s), length (flags s))"
    using assms(1,2) by (simp add: foreign_cap_def)
  show ?thesis
    using assms(3) fc
    by (cases "state_of s p"; cases "filter (race_job r fr) (queue s)")
       (simp_all add: winner_def promise_then_effects race_handler_def outcome_def)
qed

lemma race_loop_winner:
  assumes "r < length (promises s)" "fr < length (flags s)" "\<not> flag_set s fr"
  shows "winner r fr (race_loop (r, fr) ps s) =
           (case winner r fr s of Some out \<Rightarrow> Some out | None \<Rightarrow> first_settled s ps)"
  using assms
proof (induction ps arbitrary: s)
  case Nil
  then show ?case by (simp add: first_settled_def split: option.split)
next
  case (Cons p ps)
  let ?t = "snd (promise_then p (Some (ResolveFn r fr)) (Some (RejectFn r fr)) s)"
  have t: "r < length (promises ?t)" "fr < length (flags ?t)" "\<not> flag_set ?t fr"
    using Cons.prems by (simp_all add: promise_then_effects)
  have fs: "first_settled ?t ps = first_settled s ps"
    by (rule first_settled_cong) (simp add: promise_then_effects)
  show ?case
    using Cons.IH[OF t] winner_promise_then[OF Cons.prems, of p]
    by (simp add: fs first_settled_Cons split: option.split)
qed

lemma race_establish_winner:
  assumes "wf w"
  shows "winner (length (promises (rt w))) (length (flags (rt w)))
           (snd (promise_race ps (rt w))) = first_settled (rt w) ps"
proof -
  let ?s = "rt w"
  let ?r = "length (promises ?s)" and ?fr = "length (flags ?s)"
  note f = wf_fresh[OF assms]
  have "\<not> race_job ?r ?fr j" if "j \<in> set (queue ?s)" for j
    using f(2)[OF that] race_job_not_foreign by blast
  then have "filter (race_job ?r ?fr) (queue ?s) = []" by (simp add: filter_empty_conv)
  then have w0: "winner ?r ?fr (alloc_cap ?s) = None" by (simp add: winner_def flag_set_def)
  have fs: "first_settled (alloc_cap ?s) ps = first_settled ?s ps"
    by (rule first_settled_cong) simp
  have "winner ?r ?fr (race_loop (?r, ?fr) ps (alloc_cap ?s)) = first_settled ?s ps"
    using race_loop_winner[of ?r "alloc_cap ?s" ?fr ps] w0 fs by (simp add: flag_set_def)
  then show ?thesis by (simp add: promise_race_eq)
qed

text \<open>
  Claim C5, as amended. Take any program run \<open>es1\<close>, a barrier \<open>i\<close> of it, and the
  promise \<open>r\<close> that \<open>race()\<close> returns for it; let the program go on (\<open>es2\<close>, then
  \<open>es3\<close>; calls, turns of the job queue, and continuations that make calls). While
  every slot of the barrier is pending, \<open>r\<close> is pending. Let \<open>out\<close> be the outcome
  of the settled slot of lowest index at the time of the call if a slot was settled
  then, or else the outcome of the slot that is settled in a state (after \<open>es2\<close>) in
  which every other slot is still pending, the first slot to settle. Then, whatever
  the program does next, other slots settling in any way included, \<open>r\<close> is pending or
  has exactly the outcome \<open>out\<close>; and it has the outcome \<open>out\<close> as soon as the job
  queue has taken as many turns as it held jobs (after \<open>es2\<close>), and whenever the job
  queue is empty.
\<close>

theorem Barrier_race_first_settled:
  assumes w1: "w1 = run es1 init_world"
    and i: "i < length (barriers w1)"
    and call: "Barrier_race (barriers w1 ! i) (rt w1) = (r, s2)"
    and w3: "w3 = run es2 (w1\<lparr>rt := s2\<rparr>)"
    and w5: "w5 = run es3 w3"
  shows
   "((\<forall>q \<in> set (b_promises (barriers w1 ! i)). state_of (rt w3) q = Pending) \<longrightarrow>
       state_of (rt w3) r = Pending) \<and>
    (first_settled (rt w1) (b_promises (barriers w1 ! i)) = Some out \<or>
     (\<exists>p \<in> set (b_promises (barriers w1 ! i)).
        state_of (rt w3) p = out \<and> out \<noteq> Pending \<and>
        (\<forall>q \<in> set (b_promises (barriers w1 ! i)). q \<noteq> p \<longrightarrow> state_of (rt w3) q = Pending)) \<longrightarrow>
       (state_of (rt w5) r = Pending \<or> state_of (rt w5) r = out) \<and>
       (length (queue (rt w3)) \<le> count_ticks es3 \<longrightarrow> state_of (rt w5) r = out) \<and>
       (queue (rt w5) = [] \<longrightarrow> state_of (rt w5) r = out))"
proof -
  let ?ps = "b_promises (barriers w1 ! i)"
  let ?fr = "length (flags (rt w1))"
  have wf1: "wf w1" and ok1: "objs_ok w1"
    unfolding w1 by (rule wf_run[OF wf_init], rule objs_ok_run[OF objs_ok_init])
  have alloc: "\<forall>q \<in> set ?ps. q < length (promises (rt w1))"
    using barrier_promises_allocated[OF ok1 i] by blast
  have r: "r = length (promises (rt w1))" and s2: "s2 = snd (promise_race ?ps (rt w1))"
    using call by (auto simp: Barrier_race_def promise_race_eq)
  have inv2: "race_inv r ?fr ?ps (w1\<lparr>rt := s2\<rparr>)"
    unfolding r s2 by (rule race_establish(1)[OF wf1 alloc])
  have win2: "winner r ?fr s2 = first_settled (rt w1) ?ps"
    unfolding r s2 by (rule race_establish_winner[OF wf1])
  have inv3: "race_inv r ?fr ?ps w3" unfolding w3 by (rule race_run(1)[OF inv2])
  have inv5: "race_inv r ?fr ?ps w5" unfolding w5 by (rule race_run(1)[OF inv3])
  have s3: "race_state r ?fr ?ps (rt w3)" using inv3 by (simp add: race_inv_def)
  have s5: "race_state r ?fr ?ps (rt w5)" using inv5 by (simp add: race_inv_def)
  have A: "state_of (rt w3) r = Pending" if "\<forall>q \<in> set ?ps. state_of (rt w3) q = Pending"
    using s3 that by (rule race_all_pending)
  have B: "(state_of (rt w5) r = Pending \<or> state_of (rt w5) r = out) \<and>
       (length (queue (rt w3)) \<le> count_ticks es3 \<longrightarrow> state_of (rt w5) r = out) \<and>
       (queue (rt w5) = [] \<longrightarrow> state_of (rt w5) r = out)"
    if h: "first_settled (rt w1) ?ps = Some out \<or>
     (\<exists>p \<in> set ?ps. state_of (rt w3) p = out \<and> out \<noteq> Pending \<and>
        (\<forall>q \<in> set ?ps. q \<noteq> p \<longrightarrow> state_of (rt w3) q = Pending))"
  proof -
    have win3: "winner r ?fr (rt w3) = Some out"
      using h
    proof
      assume "first_settled (rt w1) ?ps = Some out"
      then have "winner r ?fr (rt (w1\<lparr>rt := s2\<rparr>)) = Some out" using win2 by simp
      then show ?thesis unfolding w3 by (rule race_run(2)[OF inv2])
    next
      assume "\<exists>p \<in> set ?ps. state_of (rt w3) p = out \<and> out \<noteq> Pending \<and>
        (\<forall>q \<in> set ?ps. q \<noteq> p \<longrightarrow> state_of (rt w3) q = Pending)"
      then obtain p where "p \<in> set ?ps" "state_of (rt w3) p = out" "out \<noteq> Pending"
        "\<forall>q \<in> set ?ps. q \<noteq> p \<longrightarrow> state_of (rt w3) q = Pending" by blast
      with s3 show ?thesis by (rule winner_first)
    qed
    then have win5: "winner r ?fr (rt w5) = Some out"
      unfolding w5 by (rule race_run(2)[OF inv3])
    have "state_of (rt w5) r = out" if "length (queue (rt w3)) \<le> count_ticks es3"
      unfolding w5 using inv3 win3 that by (rule race_decided)
    then show ?thesis using winner_settled[OF s5 win5] by blast
  qed
  show ?thesis using A B by blast
qed

theorem Barrier_race_first_settled_witness:
  "(0::nat) < length (barriers race_w1) \<and> b_promises (barriers race_w1 ! 0) = [0, 1] \<and>
   fst (Barrier_race (barriers race_w1 ! 0) (rt race_w1)) = 4 \<and>
   state_of (rt race_w3) 0 = Fulfilled (Str ''a'') \<and> state_of (rt race_w3) 1 = Pending \<and>
   length (queue (rt race_w3)) \<le> count_ticks race_es \<and>
   state_of (rt race_w5) 1 = Fulfilled (Str ''b'') \<and>
   state_of (rt race_w5) 4 = Fulfilled (Str ''a'') \<and>
   (0::nat) < length (barriers late_w1) \<and>
   first_settled (rt late_w1) (b_promises (barriers late_w1 ! 0)) = Some (Fulfilled (Str ''b'')) \<and>
   fst (Barrier_race (barriers late_w1 ! 0) (rt late_w1)) = 2 \<and>
   length (queue (rt late_w3)) \<le> count_ticks [Tick, Tick] \<and>
   state_of (rt late_w5) 0 = Fulfilled (Str ''a'') \<and>
   state_of (rt late_w5) 2 = Fulfilled (Str ''b'')"
proof -
  have i: "(0::nat) < length (barriers race_w1)" by code_simp
  have ps: "b_promises (barriers race_w1 ! 0) = [0, 1]" by code_simp
  have r: "fst (Barrier_race (barriers race_w1 ! 0) (rt race_w1)) = 4" by code_simp
  have o0: "state_of (rt race_w3) 0 = Fulfilled (Str ''a'')" by code_simp
  have o1: "state_of (rt race_w3) 1 = Pending" by code_simp
  have t: "length (queue (rt race_w3)) \<le> count_ticks race_es" by code_simp
  have l: "state_of (rt race_w5) 1 = Fulfilled (Str ''b'')" by code_simp
  have call: "Barrier_race (barriers race_w1 ! 0) (rt race_w1) =
                (4, snd (Barrier_race (barriers race_w1 ! 0) (rt race_w1)))"
    using r by (simp add: prod_eq_iff)
  have h: "\<exists>p \<in> set (b_promises (barriers race_w1 ! 0)).
        state_of (rt race_w3) p = Fulfilled (Str ''a'') \<and> Fulfilled (Str ''a'') \<noteq> Pending \<and>
        (\<forall>q \<in> set (b_promises (barriers race_w1 ! 0)). q \<noteq> p \<longrightarrow>
            state_of (rt race_w3) q = Pending)"
    using o0 o1 by (simp add: ps)
  from Barrier_race_first_settled[OF race_w1_def i call race_w3_def race_w5_def,
      of "Fulfilled (Str ''a'')"] h t
  have A: "state_of (rt race_w5) 4 = Fulfilled (Str ''a'')" by blast
  have i': "(0::nat) < length (barriers late_w1)" by code_simp
  have fs: "first_settled (rt late_w1) (b_promises (barriers late_w1 ! 0)) =
              Some (Fulfilled (Str ''b''))" by code_simp
  have r': "fst (Barrier_race (barriers late_w1 ! 0) (rt late_w1)) = 2" by code_simp
  have t': "length (queue (rt late_w3)) \<le> count_ticks [Tick, Tick]" by code_simp
  have l': "state_of (rt late_w5) 0 = Fulfilled (Str ''a'')" by code_simp
  have call': "Barrier_race (barriers late_w1 ! 0) (rt late_w1) =
                (2, snd (Barrier_race (barriers late_w1 ! 0) (rt late_w1)))"
    using r' by (simp add: prod_eq_iff)
  from Barrier_race_first_settled[OF late_w1_def i' call' late_w3_def late_w5_def,
      of "Fulfilled (Str ''b'')"] fs t'
  have B: "state_of (rt late_w5) 2 = Fulfilled (Str ''b'')" by blast
  show ?thesis using i ps r o0 o1 t l A i' fs r' t' l' B by blast
qed

text \<open>
  The claim as stated fails when \<open>race()\<close> is called after two slots have settled:
  with slot 1 settled first (with \<open>''b''\<close>), then slot 0 (with \<open>''a''\<close>), and \<open>race()\<close>
  called afterwards, the promise of the race (promise 2) adopts the outcome of slot 0,
  not of the slot that settled first.
\<close>

theorem Barrier_race_counterexample:
  "map (state_of (rt (run [NewBarrier (Number (Finite 2)),
                           BResolve 0 (Number (Finite 1)) (Plain (Str ''b''))] init_world))) [0, 1]
     = [Pending, Fulfilled (Str ''b'')] \<and>
   fst (Barrier_race
          (barriers (run [NewBarrier (Number (Finite 2)),
                          BResolve 0 (Number (Finite 1)) (Plain (Str ''b'')),
                          BResolve 0 (Number (Finite 0)) (Plain (Str ''a''))] init_world) ! 0)
          (rt (run [NewBarrier (Number (Finite 2)),
                    BResolve 0 (Number (Finite 1)) (Plain (Str ''b'')),
                    BResolve 0 (Number (Finite 0)) (Plain (Str ''a''))] init_world))) = 2 \<and>
   map (state_of (rt (run [NewBarrier (Number (Finite 2)),
                           BResolve 0 (Number (Finite 1)) (Plain (Str ''b'')),
                           BResolve 0 (Number (Finite 0)) (Plain (Str ''a'')),
                           BRace 0, Tick, Tick] init_world))) [0, 1, 2]
     = [Fulfilled (Str ''a''), Fulfilled (Str ''b''), Fulfilled (Str ''a'')] \<and>
   length (queue (rt (run [NewBarrier (Number (Finite 2)),
                           BResolve 0 (Number (Finite 1)) (Plain (Str ''b'')),
                           BResolve 0 (Number (Finite 0)) (Plain (Str ''a'')),
                           BRace 0, Tick, Tick] init_world))) = 0"
  by code_simp

text \<open>
  A \<open>DeferredPromise\<close> resolved with itself stays pending: after \<open>d.resolve(d)\<close> the job
  queue runs until it is empty, and \<open>d\<close> is pending.
\<close>

lemma DeferredPromise_resolve_self:
  "state_of (rt (run [NewDeferred, DResolve 0 (Thenable 0), Tick, Tick] init_world)) 0 = Pending \<and>
   length (queue (rt (run [NewDeferred, DResolve 0 (Thenable 0), Tick, Tick] init_world))) = 0"
  by code_simp

end
